theory Spec2Isabelle
  imports Main "HOL-Library.Word"
begin

section \<open>ScreenshotHelper: capture, validation and the two bounded queues\<close>

text \<open>
  A shallow embedding of \<^verbatim>\<open>src/electron/ScreenshotHelper.ts\<close>. Buffers are lists of
  bytes, paths and messages are strings, a thrown \<^verbatim>\<open>Error\<close> is the left injection of a
  sum carrying its message. What the operating system and the capture library decide
  (whether a promise settles or times out, whether an unlink is refused, which uuid is
  drawn) is an explicit input of the function that observes it.
\<close>

subsection \<open>Validator\<close>

type_synonym byte = "8 word"
type_synonym buffer = "byte list"

text \<open>\<^verbatim>\<open>Buffer.from([0x89, 0x50, 0x4e, 0x47, 0x0d, 0x0a, 0x1a, 0x0a])\<close>\<close>

definition pngSignature :: buffer where
  "pngSignature = [0x89, 0x50, 0x4e, 0x47, 0x0d, 0x0a, 0x1a, 0x0a]"

text \<open>
  \<^verbatim>\<open>if (buffer.length < 8) return false;
  return buffer.subarray(0, 8).equals(pngSignature);\<close>
\<close>

definition isValidPng :: "buffer \<Rightarrow> bool" where
  "isValidPng buffer =
     (if length buffer < 8 then False else take 8 buffer = pngSignature)"

subsection \<open>Strings built by template literals\<close>

definition digit_char :: "nat \<Rightarrow> char" where
  "digit_char d = char_of (48 + d)"

text \<open>Decimal rendering of a non-negative integer, as \<^verbatim>\<open>${attempt}\<close> does.\<close>

fun show_nat :: "nat \<Rightarrow> string" where
  "show_nat n =
     (if n < 10 then [digit_char n] else show_nat (n div 10) @ [digit_char (n mod 10)])"

declare show_nat.simps [simp del]

text \<open>\<^verbatim>\<open>Array.prototype.join(sep)\<close> on an array of strings.\<close>

fun join :: "string \<Rightarrow> string list \<Rightarrow> string" where
  "join sep [] = []"
| "join sep [x] = x"
| "join sep (x # y # ys) = x @ sep @ join sep (y # ys)"

subsection \<open>Capture strategies on Windows\<close>

text \<open>
  \<^verbatim>\<open>withTimeout(promise, ms, errorMessage)\<close> races the promise against a timer. Which of
  the three things happens first is decided outside the program, so it is the input.
\<close>

datatype 'a settled = Resolves 'a | Rejects string | TimerFires

definition withTimeout :: "'a settled \<Rightarrow> string \<Rightarrow> string + 'a" where
  "withTimeout promise errorMessage =
     (case promise of
        Resolves result \<Rightarrow> Inr result
      | Rejects err \<Rightarrow> Inl err
      | TimerFires \<Rightarrow> Inl errorMessage)"

text \<open>
  The temp file a strategy was asked to write, as the code finds it afterwards:
  \<^verbatim>\<open>fs.existsSync(tempFile)\<close> is false, or \<^verbatim>\<open>fs.promises.readFile(tempFile)\<close> rejects,
  or it yields the bytes.
\<close>

datatype temp_file = NotCreated | Unreadable string | Holds buffer

record strategy_run =
  settles :: "unit settled"
  tempFile :: temp_file

text \<open>
  The body of the \<^verbatim>\<open>try\<close> of Method 1 (screenshot-desktop writing to a file): the
  message of whatever it throws, or the buffer it returns. Removing the temp file
  afterwards cannot throw (its own \<^verbatim>\<open>catch\<close> only warns) and the temp directory is
  not part of the modelled file system.
\<close>

definition method1 :: "strategy_run \<Rightarrow> string + buffer" where
  "method1 r =
     (case withTimeout (settles r) ''screenshot-desktop timed out after 5 seconds'' of
        Inl err \<Rightarrow> Inl err
      | Inr _ \<Rightarrow>
          (case tempFile r of
             NotCreated \<Rightarrow> Inl ''Screenshot file not created''
           | Unreadable err \<Rightarrow> Inl err
           | Holds buffer \<Rightarrow>
               if \<not> isValidPng buffer then Inl ''Invalid PNG format''
               else if length buffer < 1024 then Inl ''Screenshot too small - likely invalid''
               else Inr buffer))"

text \<open>The body of the \<^verbatim>\<open>try\<close> of Method 2 (PowerShell).\<close>

definition method2 :: "strategy_run \<Rightarrow> string + buffer" where
  "method2 r =
     (case withTimeout (settles r) ''PowerShell screenshot timed out after 10 seconds'' of
        Inl err \<Rightarrow> Inl err
      | Inr _ \<Rightarrow>
          (case tempFile r of
             NotCreated \<Rightarrow> Inl ''PowerShell screenshot file not created''
           | Unreadable err \<Rightarrow> Inl err
           | Holds buffer \<Rightarrow>
               if \<not> isValidPng buffer then Inl ''Invalid PNG format from PowerShell''
               else if length buffer < 1024
                 then Inl ''PowerShell screenshot too small - likely invalid''
               else Inr buffer))"

subsection \<open>The retrying orchestrator\<close>

datatype Method = Method1 | Method2

text \<open>What an observer of one call sees happen, in order.\<close>

datatype step = Ran Method nat | Slept nat

definition maxRetries :: nat where
  "maxRetries = 3"

text \<open>
  What one call of \<^verbatim>\<open>captureWindowsScreenshot\<close> leaves behind: the buffer returned or
  the message of the error thrown, the local array \<^verbatim>\<open>errors\<close>, and the steps taken.
\<close>

record capture_result =
  outcome :: "string + buffer"
  errors :: "string list"
  steps :: "step list"

text \<open>
  The \<^verbatim>\<open>for (let attempt = 1; attempt <= maxRetries; attempt++)\<close> loop, entered at
  \<^verbatim>\<open>attempt\<close> with the errors and steps so far, followed by the final \<^verbatim>\<open>throw\<close>.
  Method 2 sits in the \<^verbatim>\<open>catch\<close> of Method 1, so it runs only when Method 1 failed.
  \<^verbatim>\<open>env m a\<close> is what strategy \<^verbatim>\<open>m\<close> meets when it runs in attempt \<^verbatim>\<open>a\<close>.
  \<^verbatim>\<open>cleanupTempFiles\<close>, called once before the loop, swallows its errors and touches only
  the temp directory, which is outside the modelled file system.
\<close>

function attempts ::
  "(Method \<Rightarrow> nat \<Rightarrow> strategy_run) \<Rightarrow> nat \<Rightarrow> string list \<Rightarrow> step list \<Rightarrow> capture_result"
where
  "attempts env attempt errs tr =
     (if attempt \<le> maxRetries then
        (case method1 (env Method1 attempt) of
           Inr buffer \<Rightarrow>
             \<lparr>outcome = Inr buffer, errors = errs, steps = tr @ [Ran Method1 attempt]\<rparr>
         | Inl errorMsg \<Rightarrow>
             (let errs1 = errs @ [''Method 1 (attempt '' @ show_nat attempt @ ''): '' @ errorMsg];
                  tr1 = tr @ [Ran Method1 attempt, Ran Method2 attempt]
              in case method2 (env Method2 attempt) of
                   Inr buffer \<Rightarrow> \<lparr>outcome = Inr buffer, errors = errs1, steps = tr1\<rparr>
                 | Inl psErrorMsg \<Rightarrow>
                     (let errs2 = errs1 @
                            [''Method 2 (attempt '' @ show_nat attempt @ ''): '' @ psErrorMsg];
                          tr2 = (if attempt < maxRetries
                                 then tr1 @ [Slept (200 * 2 ^ (attempt - 1))] else tr1)
                      in attempts env (attempt + 1) errs2 tr2)))
      else
        \<lparr>outcome = Inl (''Could not capture screenshot after '' @ show_nat maxRetries @
                        '' attempts. Errors: '' @ join ''; '' errs),
         errors = errs, steps = tr\<rparr>)"
  by pat_completeness auto
termination
  by (relation "measure (\<lambda>(env, attempt, errs, tr). Suc maxRetries - attempt)") auto

declare attempts.simps [simp del]

definition captureWindowsScreenshot :: "(Method \<Rightarrow> nat \<Rightarrow> strategy_run) \<Rightarrow> capture_result" where
  "captureWindowsScreenshot env = attempts env 1 [] []"

subsection \<open>The heap of arrays and the file system\<close>

text \<open>
  The two queues are JavaScript arrays: \<^verbatim>\<open>push\<close> and \<^verbatim>\<open>shift\<close> change the array
  object in place, \<^verbatim>\<open>filter\<close> and \<^verbatim>\<open>[]\<close> make a new one, and a getter hands out the
  object itself. So an array is a reference into a store. The file system is the list
  of regular files with their contents and the list of directories; the last four
  fields say on which paths the operating system refuses an operation.
\<close>

type_synonym ref = nat

record world =
  arrays :: "ref \<Rightarrow> string list"
  fresh :: ref
  files :: "(string \<times> buffer) list"
  dirs :: "string list"
  unlink_denied :: "string \<Rightarrow> bool"
  write_denied :: "string \<Rightarrow> bool"
  mkdir_denied :: "string \<Rightarrow> bool"
  readdir_denied :: "string \<Rightarrow> bool"

definition new_array :: "string list \<Rightarrow> world \<Rightarrow> ref \<times> world" where
  "new_array xs w = (fresh w, w\<lparr>arrays := (arrays w)(fresh w := xs), fresh := Suc (fresh w)\<rparr>)"

definition push :: "ref \<Rightarrow> string \<Rightarrow> world \<Rightarrow> world" where
  "push r x w = w\<lparr>arrays := (arrays w)(r := arrays w r @ [x])\<rparr>"

text \<open>\<^verbatim>\<open>shift\<close> returns \<^verbatim>\<open>undefined\<close> on an empty array.\<close>

definition shift :: "ref \<Rightarrow> world \<Rightarrow> string option \<times> world" where
  "shift r w =
     (case arrays w r of
        [] \<Rightarrow> (None, w)
      | x # xs \<Rightarrow> (Some x, w\<lparr>arrays := (arrays w)(r := xs)\<rparr>))"

text \<open>
  What code outside the class can do to an array it holds: give it any contents
  (\<^verbatim>\<open>push\<close>, \<^verbatim>\<open>pop\<close>, \<^verbatim>\<open>splice\<close>, \<^verbatim>\<open>length = 0\<close>).
\<close>

definition caller_sets :: "ref \<Rightarrow> string list \<Rightarrow> world \<Rightarrow> world" where
  "caller_sets r xs w = w\<lparr>arrays := (arrays w)(r := xs)\<rparr>"

definition isFile :: "world \<Rightarrow> string \<Rightarrow> bool" where
  "isFile w p = (p \<in> set (map fst (files w)))"

definition existsSync :: "world \<Rightarrow> string \<Rightarrow> bool" where
  "existsSync w p = (isFile w p \<or> p \<in> set (dirs w))"

text \<open>
  \<^verbatim>\<open>unlink\<close> removes a regular file; it throws when the path is a directory, when
  nothing is there, and when the system refuses.
\<close>

definition unlink :: "world \<Rightarrow> string \<Rightarrow> string + world" where
  "unlink w p =
     (if \<not> isFile w p then
        (if p \<in> set (dirs w) then Inl (''EPERM: operation not permitted, unlink '' @ p)
         else Inl (''ENOENT: no such file or directory, unlink '' @ p))
      else if unlink_denied w p then Inl (''EPERM: operation not permitted, unlink '' @ p)
      else Inr (w\<lparr>files := filter (\<lambda>e. fst e \<noteq> p) (files w)\<rparr>))"

definition writeFile :: "world \<Rightarrow> string \<Rightarrow> buffer \<Rightarrow> string + world" where
  "writeFile w p data =
     (if write_denied w p then Inl (''EACCES: permission denied, open '' @ p)
      else Inr (w\<lparr>files := (p, data) # filter (\<lambda>e. fst e \<noteq> p) (files w)\<rparr>))"

text \<open>\<^verbatim>\<open>mkdirSync(dir, { recursive: true })\<close>\<close>

definition mkdirSync :: "world \<Rightarrow> string \<Rightarrow> string + world" where
  "mkdirSync w d =
     (if mkdir_denied w d then Inl (''EACCES: permission denied, mkdir '' @ d)
      else Inr (w\<lparr>dirs := d # dirs w\<rparr>))"

text \<open>\<^verbatim>\<open>path.join(dir, file)\<close> for a directory and a file name.\<close>

definition path_join :: "string \<Rightarrow> string \<Rightarrow> string" where
  "path_join d f = d @ ''/'' @ f"

fun strip_prefix :: "string \<Rightarrow> string \<Rightarrow> string option" where
  "strip_prefix [] ys = Some ys"
| "strip_prefix (x # xs) [] = None"
| "strip_prefix (x # xs) (y # ys) = (if x = y then strip_prefix xs ys else None)"

text \<open>The name under which path \<^verbatim>\<open>p\<close> is listed in directory \<^verbatim>\<open>d\<close>, if it lies directly in it.\<close>

definition entry_name :: "string \<Rightarrow> string \<Rightarrow> string option" where
  "entry_name d p =
     (case strip_prefix (d @ ''/'') p of
        None \<Rightarrow> None
      | Some n \<Rightarrow> if n \<noteq> [] \<and> CHR ''/'' \<notin> set n then Some n else None)"

definition readdirSync :: "world \<Rightarrow> string \<Rightarrow> string + string list" where
  "readdirSync w d =
     (if d \<notin> set (dirs w) then Inl (''ENOTDIR: not a directory, scandir '' @ d)
      else if readdir_denied w d then Inl (''EACCES: permission denied, scandir '' @ d)
      else Inr (List.map_filter (entry_name d) (map fst (files w) @ dirs w)))"

text \<open>\<^verbatim>\<open>String.prototype.endsWith\<close>\<close>

definition endsWith :: "string \<Rightarrow> string \<Rightarrow> bool" where
  "endsWith s t = (length t \<le> length s \<and> drop (length s - length t) s = t)"

text \<open>
  \<^verbatim>\<open>for (const file of files) { try { fs.unlinkSync(file) } catch (err) { log } }\<close>,
  and the \<^verbatim>\<open>forEach\<close> of \<^verbatim>\<open>fs.unlink\<close> whose callback only logs.
\<close>

fun unlink_each :: "world \<Rightarrow> string list \<Rightarrow> world" where
  "unlink_each w [] = w"
| "unlink_each w (file # rest) =
     unlink_each (case unlink w file of Inl err \<Rightarrow> w | Inr w' \<Rightarrow> w') rest"

subsection \<open>The service object\<close>

datatype View = Queue | Solutions | Debug

record ScreenshotHelper =
  screenshotQueue :: ref
  extraScreenshotQueue :: ref
  screenshotDir :: string
  extraScreenshotDir :: string
  tempDir :: string
  view :: View

definition MAX_SCREENSHOTS :: nat where
  "MAX_SCREENSHOTS = 5"

definition ensureDirectoriesExist :: "ScreenshotHelper \<Rightarrow> world \<Rightarrow> world" where
  "ensureDirectoriesExist h w =
     fold (\<lambda>dir w. if \<not> existsSync w dir
                    then (case mkdirSync w dir of Inl err \<Rightarrow> w | Inr w' \<Rightarrow> w')
                    else w)
          [screenshotDir h, extraScreenshotDir h, tempDir h] w"

text \<open>
  One of the two blocks of \<^verbatim>\<open>cleanScreenshotDirectories\<close>; \<^verbatim>\<open>readdirSync\<close> is not
  guarded by the inner \<^verbatim>\<open>try\<close>, so its error leaves the block.
\<close>

definition cleanDirectory :: "world \<Rightarrow> string \<Rightarrow> string + world" where
  "cleanDirectory w dir =
     (if existsSync w dir then
        (case readdirSync w dir of
           Inl err \<Rightarrow> Inl err
         | Inr names \<Rightarrow>
             Inr (unlink_each w
                    (map (path_join dir) (filter (\<lambda>file. endsWith file ''.png'') names))))
      else Inr w)"

text \<open>The outer \<^verbatim>\<open>try\<close>/\<^verbatim>\<open>catch\<close> logs the error and returns.\<close>

definition cleanScreenshotDirectories :: "ScreenshotHelper \<Rightarrow> world \<Rightarrow> world" where
  "cleanScreenshotDirectories h w =
     (case cleanDirectory w (screenshotDir h) of
        Inl err \<Rightarrow> w
      | Inr w1 \<Rightarrow>
          (case cleanDirectory w1 (extraScreenshotDir h) of
             Inl err \<Rightarrow> w1
           | Inr w2 \<Rightarrow> w2))"

text \<open>
  The field initialisers allocate the two arrays, then the constructor body runs.
  \<^verbatim>\<open>userData\<close> and \<^verbatim>\<open>temp\<close> are \<^verbatim>\<open>app.getPath("userData")\<close> and \<^verbatim>\<open>app.getPath("temp")\<close>.
\<close>

definition constructor :: "string \<Rightarrow> string \<Rightarrow> View \<Rightarrow> world \<Rightarrow> ScreenshotHelper \<times> world" where
  "constructor userData temp v w =
     (let (q, w1) = new_array [] w;
          (e, w2) = new_array [] w1;
          h = \<lparr>screenshotQueue = q, extraScreenshotQueue = e,
               screenshotDir = path_join userData ''screenshots'',
               extraScreenshotDir = path_join userData ''extra_screenshots'',
               tempDir = path_join temp ''interview-coder-screenshots'',
               view = v\<rparr>
      in (h, cleanScreenshotDirectories h (ensureDirectoriesExist h w2)))"

definition setView :: "View \<Rightarrow> ScreenshotHelper \<Rightarrow> ScreenshotHelper" where
  "setView v h = h\<lparr>view := v\<rparr>"

text \<open>The getters return the array object, not a copy of it.\<close>

definition getScreenshotQueue :: "ScreenshotHelper \<Rightarrow> ref" where
  "getScreenshotQueue h = screenshotQueue h"

definition getExtraScreenshotQueue :: "ScreenshotHelper \<Rightarrow> ref" where
  "getExtraScreenshotQueue h = extraScreenshotQueue h"

subsection \<open>Taking a screenshot\<close>

datatype Platform = Win32 | NotWindows

text \<open>
  What one call of \<^verbatim>\<open>takeScreenshot\<close> meets: \<^verbatim>\<open>process.platform\<close>, the strategy runs of
  the Windows path, how \<^verbatim>\<open>screenshot({ format: "png" })\<close> settles elsewhere, and the
  value of \<^verbatim>\<open>uuidv4()\<close>.
\<close>

record capture_env =
  platform :: Platform
  windows :: "Method \<Rightarrow> nat \<Rightarrow> strategy_run"
  direct :: "string + buffer"
  uuid :: string

definition captureScreenshot :: "capture_env \<Rightarrow> string + buffer" where
  "captureScreenshot env =
     (case (if platform env = Win32 then outcome (captureWindowsScreenshot (windows env))
            else direct env) of
        Inl errorMsg \<Rightarrow> Inl (''Failed to capture screenshot: '' @ errorMsg)
      | Inr buffer \<Rightarrow> Inr buffer)"

text \<open>
  The block both branches of \<^verbatim>\<open>takeScreenshot\<close> share, for the directory and the queue
  of the branch: make the directory if it is missing, write the file, push the path,
  and shift and unlink the front entry when the queue is now longer than
  \<^verbatim>\<open>MAX_SCREENSHOTS\<close>. \<^verbatim>\<open>Some err\<close> is the error thrown; the unlink of the evicted file
  is inside its own \<^verbatim>\<open>try\<close>, and \<^verbatim>\<open>if (removedPath)\<close> skips the empty string.
\<close>

definition saveToQueue ::
  "string \<Rightarrow> ref \<Rightarrow> string \<Rightarrow> buffer \<Rightarrow> world \<Rightarrow> string option \<times> world" where
  "saveToQueue dir queue screenshotPath screenshotBuffer w =
     (case (if \<not> existsSync w dir then mkdirSync w dir else Inr w) of
        Inl err \<Rightarrow> (Some err, w)
      | Inr w1 \<Rightarrow>
          (case writeFile w1 screenshotPath screenshotBuffer of
             Inl err \<Rightarrow> (Some err, w1)
           | Inr w2 \<Rightarrow>
               (let w3 = push queue screenshotPath w2 in
                if length (arrays w3 queue) > MAX_SCREENSHOTS then
                  (case shift queue w3 of
                     (None, w4) \<Rightarrow> (None, w4)
                   | (Some removedPath, w4) \<Rightarrow>
                       if removedPath \<noteq> [] then
                         (case unlink w4 removedPath of
                            Inl err \<Rightarrow> (None, w4)
                          | Inr w5 \<Rightarrow> (None, w5))
                       else (None, w4))
                else (None, w3))))"

text \<open>
  \<^verbatim>\<open>takeScreenshot\<close> returns the path or rethrows. A \<^verbatim>\<open>Buffer\<close> object is never falsy,
  so \<^verbatim>\<open>!screenshotBuffer\<close> is false and the first check is the one on the length.
\<close>

definition takeScreenshot ::
  "ScreenshotHelper \<Rightarrow> world \<Rightarrow> capture_env \<Rightarrow> (string + string) \<times> world" where
  "takeScreenshot h w env =
     (case captureScreenshot env of
        Inl err \<Rightarrow> (Inl err, w)
      | Inr screenshotBuffer \<Rightarrow>
          if length screenshotBuffer = 0
            then (Inl ''Screenshot capture returned empty buffer'', w)
          else if \<not> isValidPng screenshotBuffer
            then (Inl ''Captured screenshot is not a valid PNG'', w)
          else if view h = Queue then
            (let screenshotPath = path_join (screenshotDir h) (uuid env @ ''.png'')
             in case saveToQueue (screenshotDir h) (screenshotQueue h)
                       screenshotPath screenshotBuffer w of
                  (Some err, w') \<Rightarrow> (Inl err, w')
                | (None, w') \<Rightarrow> (Inr screenshotPath, w'))
          else
            (let screenshotPath = path_join (extraScreenshotDir h) (uuid env @ ''.png'')
             in case saveToQueue (extraScreenshotDir h) (extraScreenshotQueue h)
                       screenshotPath screenshotBuffer w of
                  (Some err, w') \<Rightarrow> (Inl err, w')
                | (None, w') \<Rightarrow> (Inr screenshotPath, w')))"

subsection \<open>Deleting and clearing\<close>

record delete_result =
  success :: bool
  error :: "string option"

definition deleteScreenshot ::
  "ScreenshotHelper \<Rightarrow> world \<Rightarrow> string \<Rightarrow> delete_result \<times> ScreenshotHelper \<times> world" where
  "deleteScreenshot h w path =
     (case (if existsSync w path then unlink w path else Inr w) of
        Inl errorMsg \<Rightarrow> (\<lparr>success = False, error = Some errorMsg\<rparr>, h, w)
      | Inr w1 \<Rightarrow>
          if view h = Queue then
            (let (q, w2) = new_array (filter (\<lambda>filePath. filePath \<noteq> path)
                                        (arrays w1 (screenshotQueue h))) w1
             in (\<lparr>success = True, error = None\<rparr>, h\<lparr>screenshotQueue := q\<rparr>, w2))
          else
            (let (q, w2) = new_array (filter (\<lambda>filePath. filePath \<noteq> path)
                                        (arrays w1 (extraScreenshotQueue h))) w1
             in (\<lparr>success = True, error = None\<rparr>, h\<lparr>extraScreenshotQueue := q\<rparr>, w2)))"

text \<open>
  The unlinks of the two clearing methods are asynchronous and only log their errors;
  they are taken to complete in order, before the next operation.
\<close>

definition clearQueues :: "ScreenshotHelper \<Rightarrow> world \<Rightarrow> ScreenshotHelper \<times> world" where
  "clearQueues h w =
     (let w1 = unlink_each w (arrays w (screenshotQueue h));
          (q, w2) = new_array [] w1;
          w3 = unlink_each w2 (arrays w2 (extraScreenshotQueue h));
          (e, w4) = new_array [] w3
      in (h\<lparr>screenshotQueue := q, extraScreenshotQueue := e\<rparr>, w4))"

definition clearExtraScreenshotQueue ::
  "ScreenshotHelper \<Rightarrow> world \<Rightarrow> ScreenshotHelper \<times> world" where
  "clearExtraScreenshotQueue h w =
     (let w1 = fold (\<lambda>screenshotPath w.
                       if existsSync w screenshotPath
                       then (case unlink w screenshotPath of Inl err \<Rightarrow> w | Inr w' \<Rightarrow> w')
                       else w)
                    (arrays w (extraScreenshotQueue h)) w;
          (e, w2) = new_array [] w1
      in (h\<lparr>extraScreenshotQueue := e\<rparr>, w2))"

subsection \<open>Sequences of calls\<close>

datatype call =
    SetView View
  | TakeScreenshot capture_env
  | DeleteScreenshot string
  | ClearQueues
  | ClearExtraScreenshotQueue

fun perform :: "call \<Rightarrow> ScreenshotHelper \<times> world \<Rightarrow> ScreenshotHelper \<times> world" where
  "perform (SetView v) (h, w) = (setView v h, w)"
| "perform (TakeScreenshot env) (h, w) = (h, snd (takeScreenshot h w env))"
| "perform (DeleteScreenshot path) (h, w) = snd (deleteScreenshot h w path)"
| "perform ClearQueues (h, w) = clearQueues h w"
| "perform ClearExtraScreenshotQueue (h, w) = clearExtraScreenshotQueue h w"

fun run :: "call list \<Rightarrow> ScreenshotHelper \<times> world \<Rightarrow> ScreenshotHelper \<times> world" where
  "run [] s = s"
| "run (c # cs) s = run cs (perform c s)"

text \<open>The uuids drawn by the captures of a sequence of calls, in order.\<close>

fun uuids_of :: "call list \<Rightarrow> string list" where
  "uuids_of [] = []"
| "uuids_of (TakeScreenshot env # cs) = uuid env # uuids_of cs"
| "uuids_of (c # cs) = uuids_of cs"

text \<open>The contents of the two queues of a service object in a world.\<close>

definition primary :: "ScreenshotHelper \<times> world \<Rightarrow> string list" where
  "primary s = arrays (snd s) (screenshotQueue (fst s))"

definition secondary :: "ScreenshotHelper \<times> world \<Rightarrow> string list" where
  "secondary s = arrays (snd s) (extraScreenshotQueue (fst s))"

text \<open>The directory and the queue a capture goes to in the current view.\<close>

definition target_dir :: "ScreenshotHelper \<Rightarrow> string" where
  "target_dir h = (if view h = Queue then screenshotDir h else extraScreenshotDir h)"

definition target_queue :: "ScreenshotHelper \<Rightarrow> ref" where
  "target_queue h = (if view h = Queue then screenshotQueue h else extraScreenshotQueue h)"

subsection \<open>Invariants of the service state\<close>

text \<open>The two queues are different allocated arrays.\<close>

definition separate :: "ScreenshotHelper \<times> world \<Rightarrow> bool" where
  "separate s =
     (screenshotQueue (fst s) \<noteq> extraScreenshotQueue (fst s)
      \<and> screenshotQueue (fst s) < fresh (snd s)
      \<and> extraScreenshotQueue (fst s) < fresh (snd s))"

text \<open>Neither queue is longer than the capacity, and no entry is the empty path.\<close>

definition bounded :: "ScreenshotHelper \<times> world \<Rightarrow> bool" where
  "bounded s =
     (length (primary s) \<le> MAX_SCREENSHOTS \<and> length (secondary s) \<le> MAX_SCREENSHOTS
      \<and> [] \<notin> set (primary s) \<and> [] \<notin> set (secondary s))"

text \<open>
  Every entry is the path made from one of the uuids \<^verbatim>\<open>U\<close> drawn so far, in the
  directory of its queue, and no entry occurs twice.
\<close>

definition named :: "string set \<Rightarrow> ScreenshotHelper \<times> world \<Rightarrow> bool" where
  "named U s =
     (distinct (primary s) \<and> distinct (secondary s)
      \<and> set (primary s) \<subseteq> (\<lambda>u. path_join (screenshotDir (fst s)) (u @ ''.png'')) ` U
      \<and> set (secondary s) \<subseteq> (\<lambda>u. path_join (extraScreenshotDir (fst s)) (u @ ''.png'')) ` U)"

subsection \<open>Concrete inputs\<close>

text \<open>An empty disk on which nothing is refused, and a heap with nothing allocated.\<close>

definition empty_world :: world where
  "empty_world =
     \<lparr>arrays = (\<lambda>r. []), fresh = 0, files = [], dirs = [],
      unlink_denied = (\<lambda>p. False), write_denied = (\<lambda>p. False),
      mkdir_denied = (\<lambda>p. False), readdir_denied = (\<lambda>p. False)\<rparr>"

text \<open>A run in which the promise never settles before the timer and no file appears.\<close>

definition timed_out :: strategy_run where
  "timed_out = \<lparr>settles = TimerFires, tempFile = NotCreated\<rparr>"

text \<open>A capture off Windows that yields the eight signature bytes, named by uuid \<^verbatim>\<open>u\<close>.\<close>

definition png_capture :: "string \<Rightarrow> capture_env" where
  "png_capture u =
     \<lparr>platform = NotWindows, windows = (\<lambda>m a. timed_out),
      direct = Inr pngSignature, uuid = u\<rparr>"

text \<open>A buffer of 1024 bytes that starts with the signature, and a run that wrote it.\<close>

definition padded_png :: buffer where
  "padded_png = pngSignature @ replicate 1016 0"

definition written :: strategy_run where
  "written = \<lparr>settles = Resolves (), tempFile = Holds padded_png\<rparr>"

text \<open>A capture on Windows in which every strategy times out in every attempt.\<close>

definition failing_capture :: capture_env where
  "failing_capture =
     \<lparr>platform = Win32, windows = (\<lambda>m a. timed_out),
      direct = Inr pngSignature, uuid = ''u0''\<rparr>"

text \<open>The service right after construction on the empty disk.\<close>

definition fresh_service :: "ScreenshotHelper \<times> world" where
  "fresh_service = constructor ''/data'' ''/tmp'' Queue empty_world"

text \<open>The service after one capture in the solutions view and a return to the queue view.\<close>

definition after_solutions_capture :: "ScreenshotHelper \<times> world" where
  "after_solutions_capture =
     run [SetView Solutions, TakeScreenshot (png_capture ''u1''), SetView Queue]
         (constructor ''/data'' ''/tmp'' Queue empty_world)"

text \<open>
  A disk with leftovers of an earlier run: three files in the primary directory, one
  of them not a screenshot and one that the system refuses to unlink, and one file in
  the secondary directory.
\<close>

definition leftover_world :: world where
  "leftover_world =
     empty_world
       \<lparr>files := [(''/data/screenshots/old.png'', pngSignature),
                 (''/data/screenshots/locked.png'', pngSignature),
                 (''/data/screenshots/notes.txt'', []),
                 (''/data/extra_screenshots/old.png'', pngSignature)],
        dirs := [''/data/screenshots'', ''/data/extra_screenshots''],
        unlink_denied := (\<lambda>p. p = ''/data/screenshots/locked.png'')\<rparr>"

text \<open>
  Five captures in the queue view, the service after them on the empty disk, and the
  same on a disk where the system refuses to unlink the file of the first capture.
\<close>

definition five_captures :: "call list" where
  "five_captures =
     [TakeScreenshot (png_capture ''u1''), TakeScreenshot (png_capture ''u2''),
      TakeScreenshot (png_capture ''u3''), TakeScreenshot (png_capture ''u4''),
      TakeScreenshot (png_capture ''u5'')]"

definition full_service :: "ScreenshotHelper \<times> world" where
  "full_service = run five_captures (constructor ''/data'' ''/tmp'' Queue empty_world)"

definition locked_world :: world where
  "locked_world = empty_world\<lparr>unlink_denied := (\<lambda>p. p = ''/data/screenshots/u1.png'')\<rparr>"

definition full_locked_service :: "ScreenshotHelper \<times> world" where
  "full_locked_service = run five_captures (constructor ''/data'' ''/tmp'' Queue locked_world)"

text \<open>
  The service in the debug view, in the solutions view after one capture, and in the
  solutions view after five captures.
\<close>

definition in_debug_view :: "ScreenshotHelper \<times> world" where
  "in_debug_view = run [SetView Debug] (constructor ''/data'' ''/tmp'' Queue empty_world)"

definition in_solutions_view :: "ScreenshotHelper \<times> world" where
  "in_solutions_view =
     run [SetView Solutions, TakeScreenshot (png_capture ''u1'')]
         (constructor ''/data'' ''/tmp'' Queue empty_world)"

definition full_secondary_service :: "ScreenshotHelper \<times> world" where
  "full_secondary_service =
     run (SetView Solutions # five_captures) (constructor ''/data'' ''/tmp'' Queue empty_world)"

section \<open>Properties\<close>

subsection \<open>Rendering and the orchestrator loop\<close>

lemma show_nat_digits:
  "show_nat (Suc 0) = ''1''" "show_nat 2 = ''2''" "show_nat 3 = ''3''"
  by code_simp+

lemma attempts_exhausted:
  "maxRetries < attempt \<Longrightarrow>
     attempts env attempt errs tr =
       \<lparr>outcome = Inl (''Could not capture screenshot after '' @ show_nat maxRetries @
                       '' attempts. Errors: '' @ join ''; '' errs),
        errors = errs, steps = tr\<rparr>"
  by (simp add: attempts.simps[of _ attempt])

lemma attempts_round_fails:
  "attempt \<le> maxRetries \<Longrightarrow> method1 (env Method1 attempt) = Inl m1 \<Longrightarrow>
   method2 (env Method2 attempt) = Inl m2 \<Longrightarrow>
   attempts env attempt errs tr =
     attempts env (Suc attempt)
       (errs @ [''Method 1 (attempt '' @ show_nat attempt @ ''): '' @ m1,
                ''Method 2 (attempt '' @ show_nat attempt @ ''): '' @ m2])
       (tr @ [Ran Method1 attempt, Ran Method2 attempt] @
          (if attempt < maxRetries then [Slept (200 * 2 ^ (attempt - 1))] else []))"
  by (subst attempts.simps) (simp add: Let_def)

subsection \<open>Files\<close>

lemma unlink_Inr_iff:
  "unlink w p = Inr w' \<longleftrightarrow>
     isFile w p \<and> \<not> unlink_denied w p \<and> w' = w\<lparr>files := filter (\<lambda>e. fst e \<noteq> p) (files w)\<rparr>"
  by (auto simp: unlink_def)

lemma unlink_Inl_iff:
  "(\<exists>e. unlink w p = Inl e) \<longleftrightarrow> \<not> isFile w p \<or> unlink_denied w p"
  by (auto simp: unlink_def)

lemma isFile_files_filter [simp]:
  "isFile (w\<lparr>files := filter (\<lambda>e. fst e \<noteq> p) (files w)\<rparr>) q = (isFile w q \<and> q \<noteq> p)"
  by (auto simp: isFile_def)

lemma isFile_arrays_update [simp]: "isFile (w\<lparr>arrays := a\<rparr>) q = isFile w q"
  by (simp add: isFile_def)

lemma isFile_fresh_update [simp]: "isFile (w\<lparr>fresh := a\<rparr>) q = isFile w q"
  by (simp add: isFile_def)

lemma isFile_dirs_update [simp]: "isFile (w\<lparr>dirs := a\<rparr>) q = isFile w q"
  by (simp add: isFile_def)

lemma unlink_each_frame:
  "arrays (unlink_each w ps) = arrays w \<and> fresh (unlink_each w ps) = fresh w
   \<and> dirs (unlink_each w ps) = dirs w \<and> unlink_denied (unlink_each w ps) = unlink_denied w"
  by (induction ps arbitrary: w) (auto split: sum.splits simp: unlink_Inr_iff)


lemma unlink_each_isFile_mono:
  "isFile (unlink_each w ps) q \<Longrightarrow> isFile w q"
proof (induction ps arbitrary: w)
  case Nil then show ?case by simp
next
  case (Cons a ps)
  show ?case
  proof (cases "unlink w a")
    case (Inl e)
    with Cons.prems have "isFile (unlink_each w ps) q" by simp
    then show ?thesis by (rule Cons.IH)
  next
    case (Inr w1)
    with Cons.prems have "isFile (unlink_each w1 ps) q" by simp
    then have "isFile w1 q" by (rule Cons.IH)
    with Inr show ?thesis by (simp add: unlink_Inr_iff)
  qed
qed

lemma unlink_each_removes:
  "p \<in> set ps \<Longrightarrow> \<not> unlink_denied w p \<Longrightarrow> \<not> isFile (unlink_each w ps) p"
proof (induction ps arbitrary: w)
  case Nil then show ?case by simp
next
  case (Cons a ps)
  show ?case
  proof (cases "unlink w a")
    case (Inl e)
    show ?thesis
    proof (cases "p = a")
      case True
      with Inl Cons.prems have "\<not> isFile w p" using unlink_Inl_iff[of w a] by auto
      then have "\<not> isFile (unlink_each w ps) p" using unlink_each_isFile_mono by blast
      then show ?thesis using Inl by simp
    next
      case False
      with Cons.prems have "p \<in> set ps" by simp
      then have "\<not> isFile (unlink_each w ps) p" using Cons.prems(2) by (rule Cons.IH)
      then show ?thesis using Inl by simp
    qed
  next
    case (Inr w1)
    show ?thesis
    proof (cases "p = a")
      case True
      with Inr have "\<not> isFile w1 p" by (simp add: unlink_Inr_iff)
      then have "\<not> isFile (unlink_each w1 ps) p" using unlink_each_isFile_mono by blast
      then show ?thesis using Inr by simp
    next
      case False
      with Cons.prems have "p \<in> set ps" by simp
      moreover have "\<not> unlink_denied w1 p" using Inr Cons.prems(2) by (simp add: unlink_Inr_iff)
      ultimately have "\<not> isFile (unlink_each w1 ps) p" by (rule Cons.IH)
      then show ?thesis using Inr by simp
    qed
  qed
qed

lemma unlink_each_keeps:
  "q \<notin> set ps \<or> unlink_denied w q \<Longrightarrow> isFile (unlink_each w ps) q = isFile w q"
proof (induction ps arbitrary: w)
  case Nil then show ?case by simp
next
  case (Cons a ps)
  show ?case
  proof (cases "unlink w a")
    case (Inl e)
    have "q \<notin> set ps \<or> unlink_denied w q" using Cons.prems by auto
    then have "isFile (unlink_each w ps) q = isFile w q" by (rule Cons.IH)
    then show ?thesis using Inl by simp
  next
    case (Inr w1)
    have ne: "q \<noteq> a" using Inr Cons.prems by (auto simp: unlink_Inr_iff)
    have "q \<notin> set ps \<or> unlink_denied w1 q" using Cons.prems Inr by (auto simp: unlink_Inr_iff)
    then have "isFile (unlink_each w1 ps) q = isFile w1 q" by (rule Cons.IH)
    moreover have "isFile w1 q = isFile w q" using Inr ne by (auto simp: unlink_Inr_iff)
    moreover have "unlink_each w (a # ps) = unlink_each w1 ps" using Inr by simp
    ultimately show ?thesis by simp
  qed
qed

lemma shift_push:
  "shift q (push q p w) =
     (Some (hd (arrays w q @ [p])), w\<lparr>arrays := (arrays w)(q := tl (arrays w q @ [p]))\<rparr>)"
  by (cases "arrays w q") (simp_all add: shift_def push_def)
lemma push_fields [simp]:
  "arrays (push q p w) = (arrays w)(q := arrays w q @ [p])"
  "fresh (push q p w) = fresh w"
  "files (push q p w) = files w"
  "dirs (push q p w) = dirs w"
  "unlink_denied (push q p w) = unlink_denied w"
  by (simp_all add: push_def)

lemma saveToQueue_thrown:
  "saveToQueue dir q p buf w = (Some err, w') \<Longrightarrow>
     arrays w' = arrays w \<and> fresh w' = fresh w \<and> files w' = files w
     \<and> unlink_denied w' = unlink_denied w"
  by (auto simp: saveToQueue_def mkdirSync_def writeFile_def Let_def shift_push unlink_Inr_iff
      split: if_splits sum.splits)

lemma saveToQueue_arrays:
  "saveToQueue dir q p buf w = (None, w') \<Longrightarrow>
     fresh w' = fresh w \<and> unlink_denied w' = unlink_denied w \<and>
     arrays w' = (arrays w)(q := (if length (arrays w q) < MAX_SCREENSHOTS then arrays w q @ [p]
                                 else tl (arrays w q) @ [p]))"
  apply (cases "arrays w q = []")
  by (auto simp: saveToQueue_def mkdirSync_def writeFile_def Let_def shift_push unlink_Inr_iff MAX_SCREENSHOTS_def
      split: if_splits sum.splits)


lemma saveToQueue_evicts:
  assumes "saveToQueue dir q p buf w = (None, w')"
    and "MAX_SCREENSHOTS \<le> length (arrays w q)"
    and "hd (arrays w q) \<noteq> []" and "\<not> unlink_denied w (hd (arrays w q))"
  shows "\<not> isFile w' (hd (arrays w q))"
  using assms
  apply (cases "arrays w q = []")
  by (auto simp: saveToQueue_def mkdirSync_def writeFile_def Let_def shift_push unlink_Inr_iff MAX_SCREENSHOTS_def
      unlink_def isFile_def split: if_splits sum.splits)

lemma saveToQueue_written:
  assumes "saveToQueue dir q p buf w = (None, w')"
    and "length (arrays w q) < MAX_SCREENSHOTS \<or> hd (arrays w q) \<noteq> p"
  shows "map_of (files w') p = Some buf"
  using assms
  apply (cases "arrays w q = []")
  by (auto simp: saveToQueue_def mkdirSync_def writeFile_def Let_def shift_push unlink_Inr_iff MAX_SCREENSHOTS_def
       split: if_splits sum.splits)

lemma saveToQueue_write_denied:
  "write_denied w p \<Longrightarrow> fst (saveToQueue dir q p buf w) \<noteq> None"
  by (auto simp: saveToQueue_def mkdirSync_def writeFile_def split: sum.splits if_splits)

lemma saveToQueue_mkdir_denied:
  "\<not> existsSync w dir \<Longrightarrow> mkdir_denied w dir \<Longrightarrow> fst (saveToQueue dir q p buf w) \<noteq> None"
  by (auto simp: saveToQueue_def mkdirSync_def writeFile_def split: sum.splits if_splits)

lemma takeScreenshot_Inr:
  assumes "takeScreenshot h w env = (Inr p, w')"
  shows "\<exists>buf. captureScreenshot env = Inr buf \<and> buf \<noteq> [] \<and> isValidPng buf
           \<and> p = path_join (target_dir h) (uuid env @ ''.png'')
           \<and> saveToQueue (target_dir h) (target_queue h) p buf w = (None, w')"
  using assms
  by (auto simp: takeScreenshot_def target_dir_def target_queue_def Let_def
      split: sum.splits if_splits prod.splits option.splits)

lemma takeScreenshot_Inl:
  assumes "takeScreenshot h w env = (Inl e, w')"
  shows "arrays w' = arrays w \<and> fresh w' = fresh w \<and> files w' = files w
     \<and> unlink_denied w' = unlink_denied w"
  using assms
  by (auto simp: takeScreenshot_def Let_def
      split: sum.splits if_splits prod.splits option.splits dest: saveToQueue_thrown)

lemma takeScreenshot_heap:
  assumes "takeScreenshot h w env = (r, w')"
  shows "fresh w' = fresh w \<and> unlink_denied w' = unlink_denied w \<and>
    (case r of
       Inl e \<Rightarrow> arrays w' = arrays w
     | Inr p \<Rightarrow> p = path_join (target_dir h) (uuid env @ ''.png'') \<and>
         arrays w' = (arrays w)(target_queue h :=
            (if length (arrays w (target_queue h)) < MAX_SCREENSHOTS
             then arrays w (target_queue h) @ [p] else tl (arrays w (target_queue h)) @ [p])))"
proof (cases r)
  case (Inl e)
  then show ?thesis using assms takeScreenshot_Inl[of h w env e w'] 
    by simp
next
  case (Inr p)
  then obtain buf where "p = path_join (target_dir h) (uuid env @ ''.png'')"
    and "saveToQueue (target_dir h) (target_queue h) p buf w = (None, w')"
    using assms takeScreenshot_Inr[of h w env p w'] by auto
  then show ?thesis using Inr saveToQueue_arrays[of "target_dir h" "target_queue h" p buf w w'] by simp
qed


lemma primary_simp [simp]: "primary (h, w) = arrays w (screenshotQueue h)"
  by (simp add: primary_def)

lemma secondary_simp [simp]: "secondary (h, w) = arrays w (extraScreenshotQueue h)"
  by (simp add: secondary_def)

lemma deleteScreenshot_cases:
  assumes "deleteScreenshot h w path = (res, h', w')"
  shows "(\<not> success res \<and> error res \<noteq> None \<and> h' = h \<and> w' = w \<and> existsSync w path
            \<and> (\<not> isFile w path \<or> unlink_denied w path))
       \<or> (success res \<and> error res = None
            \<and> (existsSync w path \<longrightarrow> isFile w path \<and> \<not> unlink_denied w path)
            \<and> fresh w' = Suc (fresh w)
            \<and> arrays w' = (arrays w)(fresh w :=
                 filter (\<lambda>filePath. filePath \<noteq> path) (arrays w (target_queue h)))
            \<and> h' = (if view h = Queue then h\<lparr>screenshotQueue := fresh w\<rparr>
                     else h\<lparr>extraScreenshotQueue := fresh w\<rparr>)
            \<and> files w' = filter (\<lambda>e. fst e \<noteq> path) (files w)
            \<and> dirs w' = dirs w
            \<and> unlink_denied w' = unlink_denied w)"
proof (cases "existsSync w path")
  case False
  then have "\<not> isFile w path" by (simp add: existsSync_def)
  then have "filter (\<lambda>e. fst e \<noteq> path) (files w) = files w"
    by (auto simp: isFile_def filter_id_conv)
  then show ?thesis using assms False
    by (auto simp: deleteScreenshot_def new_array_def target_queue_def Let_def)
next
  case True
  show ?thesis
  proof (cases "unlink w path")
    case (Inl e)
    then show ?thesis using assms True unlink_Inl_iff[of w path]
      by (auto simp: deleteScreenshot_def)
  next
    case (Inr w1)
    have eq: "(res, h', w') =
        (\<lparr>success = True, error = None\<rparr>,
         (if view h = Queue then h\<lparr>screenshotQueue := fresh w1\<rparr>
          else h\<lparr>extraScreenshotQueue := fresh w1\<rparr>),
         w1\<lparr>arrays := (arrays w1)(fresh w1 :=
               filter (\<lambda>filePath. filePath \<noteq> path) (arrays w1 (target_queue h))),
            fresh := Suc (fresh w1)\<rparr>)"
      using assms True Inr
      by (auto simp: deleteScreenshot_def new_array_def target_queue_def Let_def split: if_splits)
    have w1: "isFile w path \<and> \<not> unlink_denied w path
        \<and> w1 = w\<lparr>files := filter (\<lambda>e. fst e \<noteq> path) (files w)\<rparr>"
      using Inr by (simp add: unlink_Inr_iff)
    show ?thesis using eq w1 by simp
  qed
qed

lemma ensureDirectoriesExist_frame:
  "arrays (ensureDirectoriesExist h w) = arrays w"
  "fresh (ensureDirectoriesExist h w) = fresh w"
  "files (ensureDirectoriesExist h w) = files w"
  "unlink_denied (ensureDirectoriesExist h w) = unlink_denied w"
  "readdir_denied (ensureDirectoriesExist h w) = readdir_denied w"
  by (simp_all add: ensureDirectoriesExist_def mkdirSync_def)

lemma ensureDirectoriesExist_dirs:
  "d \<in> set (dirs w) \<Longrightarrow> d \<in> set (dirs (ensureDirectoriesExist h w))"
  by (simp add: ensureDirectoriesExist_def mkdirSync_def)


lemma cleanDirectory_frame:
  assumes "cleanDirectory w d = Inr w'"
  shows "arrays w' = arrays w \<and> fresh w' = fresh w \<and> dirs w' = dirs w
     \<and> unlink_denied w' = unlink_denied w"
proof (cases "existsSync w d")
  case False
  with assms show ?thesis by (simp add: cleanDirectory_def)
next
  case True
  then obtain names where "readdirSync w d = Inr names"
    and "w' = unlink_each w (map (path_join d) (filter (\<lambda>file. endsWith file ''.png'') names))"
    using assms by (auto simp: cleanDirectory_def split: sum.splits)
  then show ?thesis by (simp add: unlink_each_frame)
qed

lemma cleanScreenshotDirectories_frame:
  "arrays (cleanScreenshotDirectories h w) = arrays w
   \<and> fresh (cleanScreenshotDirectories h w) = fresh w
   \<and> dirs (cleanScreenshotDirectories h w) = dirs w
   \<and> unlink_denied (cleanScreenshotDirectories h w) = unlink_denied w"
proof (cases "cleanDirectory w (screenshotDir h)")
  case (Inl e)
  then show ?thesis by (simp add: cleanScreenshotDirectories_def)
next
  case (Inr w1)
  note w1 = cleanDirectory_frame[OF Inr]
  show ?thesis
  proof (cases "cleanDirectory w1 (extraScreenshotDir h)")
    case (Inl e)
    then show ?thesis using Inr w1 by (simp add: cleanScreenshotDirectories_def)
  next
    case (Inr w2)
    note w2 = cleanDirectory_frame[OF Inr]
    show ?thesis using \<open>cleanDirectory w (screenshotDir h) = Inr w1\<close> Inr w1 w2
      by (simp add: cleanScreenshotDirectories_def)
  qed
qed

lemma constructor_state:
  assumes "constructor userData temp v w = (h, w')"
  shows "separate (h, w') \<and> primary (h, w') = [] \<and> secondary (h, w') = []
     \<and> screenshotDir h = path_join userData ''screenshots''
     \<and> extraScreenshotDir h = path_join userData ''extra_screenshots''
     \<and> view h = v \<and> unlink_denied w' = unlink_denied w"
  using assms
  by (auto simp: constructor_def new_array_def Let_def separate_def
      cleanScreenshotDirectories_frame ensureDirectoriesExist_frame)

lemma guarded_unlink_fold_frame:
  "arrays (fold (\<lambda>screenshotPath w.
                  if existsSync w screenshotPath
                  then (case unlink w screenshotPath of Inl err \<Rightarrow> w | Inr w' \<Rightarrow> w')
                  else w) ps w) = arrays w
   \<and> fresh (fold (\<lambda>screenshotPath w.
                  if existsSync w screenshotPath
                  then (case unlink w screenshotPath of Inl err \<Rightarrow> w | Inr w' \<Rightarrow> w')
                  else w) ps w) = fresh w"
proof (induction ps arbitrary: w)
  case Nil show ?case by simp
next
  case (Cons a ps)
  have "arrays (case unlink w a of Inl err \<Rightarrow> w | Inr w' \<Rightarrow> w') = arrays w
      \<and> fresh (case unlink w a of Inl err \<Rightarrow> w | Inr w' \<Rightarrow> w') = fresh w"
    by (simp add: unlink_def)
  then show ?case using Cons.IH by simp
qed

lemma clearQueues_state:
  assumes "clearQueues h w = (h', w')"
  shows "screenshotQueue h' = fresh w \<and> extraScreenshotQueue h' = Suc (fresh w)
     \<and> fresh w' = Suc (Suc (fresh w))
     \<and> arrays w' (fresh w) = [] \<and> arrays w' (Suc (fresh w)) = []
     \<and> screenshotDir h' = screenshotDir h \<and> extraScreenshotDir h' = extraScreenshotDir h"
  using assms
  by (auto simp: clearQueues_def new_array_def Let_def unlink_each_frame)

lemma clearExtraScreenshotQueue_state:
  assumes "clearExtraScreenshotQueue h w = (h', w')"
  shows "screenshotQueue h' = screenshotQueue h \<and> extraScreenshotQueue h' = fresh w
     \<and> fresh w' = Suc (fresh w)
     \<and> arrays w' = (arrays w)(fresh w := [])
     \<and> screenshotDir h' = screenshotDir h \<and> extraScreenshotDir h' = extraScreenshotDir h"
  using assms
  by (auto simp: clearExtraScreenshotQueue_def new_array_def Let_def guarded_unlink_fold_frame)

lemma path_join_nonempty [simp]: "path_join d f \<noteq> []"
  by (simp add: path_join_def)

lemma enqueue_length:
  "length old \<le> MAX_SCREENSHOTS \<Longrightarrow>
     length (if length old < MAX_SCREENSHOTS then old @ [p] else tl old @ [p]) \<le> MAX_SCREENSHOTS"
  by (auto simp: MAX_SCREENSHOTS_def)

lemma enqueue_set:
  "set (if length old < MAX_SCREENSHOTS then old @ [p] else tl old @ [p]) \<subseteq> insert p (set old)"
  by (cases old) auto

lemma takeScreenshot_inv:
  assumes t: "takeScreenshot h w env = (r, w')" and sep: "separate (h, w)" and bd: "bounded (h, w)"
  shows "separate (h, w') \<and> bounded (h, w')"
proof (cases r)
  case (Inl e)
  then show ?thesis using takeScreenshot_heap[OF t] sep bd
    by (simp add: separate_def bounded_def)
next
  case (Inr p)
  let ?q = "target_queue h"
  let ?new = "if length (arrays w ?q) < MAX_SCREENSHOTS then arrays w ?q @ [p]
              else tl (arrays w ?q) @ [p]"
  have fr: "fresh w' = fresh w" and ar: "arrays w' = (arrays w)(?q := ?new)"
    and p: "p \<noteq> []"
    using takeScreenshot_heap[OF t] Inr by simp_all
  have len: "length (arrays w ?q) \<le> MAX_SCREENSHOTS" and ne: "[] \<notin> set (arrays w ?q)"
    using bd by (auto simp: bounded_def target_queue_def)
  have l: "length ?new \<le> MAX_SCREENSHOTS" using enqueue_length[OF len] .
  have n: "[] \<notin> set ?new" using enqueue_set[of "arrays w ?q" p] ne p by blast
  show ?thesis
  proof (cases "view h = Queue")
    case True
    then have q: "?q = screenshotQueue h" by (simp add: target_queue_def)
    show ?thesis using sep bd l n fr ar unfolding q
      by (simp add: separate_def bounded_def)
  next
    case False
    then have q: "?q = extraScreenshotQueue h" by (simp add: target_queue_def)
    show ?thesis using sep bd l n fr ar unfolding q
      by (simp add: separate_def bounded_def)
  qed
qed

lemma deleteScreenshot_inv:
  assumes d: "deleteScreenshot h w path = (res, h', w')" and sep: "separate (h, w)" and bd: "bounded (h, w)"
  shows "separate (h', w') \<and> bounded (h', w')
     \<and> screenshotDir h' = screenshotDir h \<and> extraScreenshotDir h' = extraScreenshotDir h"
proof (cases "success res")
  case False
  then show ?thesis using deleteScreenshot_cases[OF d] sep bd by auto
next
  case True
  let ?new = "filter (\<lambda>filePath. filePath \<noteq> path) (arrays w (target_queue h))"
  have fr: "fresh w' = Suc (fresh w)" and ar: "arrays w' = (arrays w)(fresh w := ?new)"
    and h': "h' = (if view h = Queue then h\<lparr>screenshotQueue := fresh w\<rparr>
                   else h\<lparr>extraScreenshotQueue := fresh w\<rparr>)"
    using deleteScreenshot_cases[OF d] True by auto
  have len: "length (arrays w (target_queue h)) \<le> MAX_SCREENSHOTS"
    and ne: "[] \<notin> set (arrays w (target_queue h))"
    using bd by (auto simp: bounded_def target_queue_def)
  have l: "length ?new \<le> MAX_SCREENSHOTS" using len le_trans[OF length_filter_le] by blast
  have n: "[] \<notin> set ?new" using ne by simp
  show ?thesis
  proof (cases "view h = Queue")
    case True
    then show ?thesis using sep bd l n fr ar h'
      by (simp add: separate_def bounded_def)
  next
    case False
    then show ?thesis using sep bd l n fr ar h'
      by (simp add: separate_def bounded_def)
  qed
qed

lemma perform_inv:
  assumes "separate s" and "bounded s"
  shows "separate (perform c s) \<and> bounded (perform c s)
     \<and> screenshotDir (fst (perform c s)) = screenshotDir (fst s)
     \<and> extraScreenshotDir (fst (perform c s)) = extraScreenshotDir (fst s)"
proof -
  obtain h w where s: "s = (h, w)" by (cases s)
  show ?thesis
  proof (cases c)
    case (SetView v)
    then show ?thesis using assms s by (simp add: setView_def separate_def bounded_def)
  next
    case (TakeScreenshot env)
    obtain r w' where t: "takeScreenshot h w env = (r, w')" by (cases "takeScreenshot h w env")
    then show ?thesis using takeScreenshot_inv[OF t] assms s TakeScreenshot by simp
  next
    case (DeleteScreenshot path)
    obtain res h' w' where d: "deleteScreenshot h w path = (res, h', w')"
      by (cases "deleteScreenshot h w path") auto
    then show ?thesis using deleteScreenshot_inv[OF d] assms s DeleteScreenshot by simp
  next
    case ClearQueues
    obtain h' w' where c: "clearQueues h w = (h', w')" by (cases "clearQueues h w")
    then show ?thesis using clearQueues_state[OF c] s ClearQueues
      by (simp add: separate_def bounded_def)
  next
    case ClearExtraScreenshotQueue
    obtain h' w' where c: "clearExtraScreenshotQueue h w = (h', w')"
      by (cases "clearExtraScreenshotQueue h w")
    then show ?thesis using clearExtraScreenshotQueue_state[OF c] s ClearExtraScreenshotQueue assms
      by (auto simp: separate_def bounded_def)
  qed
qed

lemma run_inv:
  "separate s \<Longrightarrow> bounded s \<Longrightarrow>
     separate (run cs s) \<and> bounded (run cs s)
     \<and> screenshotDir (fst (run cs s)) = screenshotDir (fst s)
     \<and> extraScreenshotDir (fst (run cs s)) = extraScreenshotDir (fst s)"
proof (induction cs arbitrary: s)
  case Nil then show ?case by simp
next
  case (Cons c cs)
  note p = perform_inv[OF Cons.prems, of c]
  from p have "separate (perform c s)" and "bounded (perform c s)" by simp_all
  from Cons.IH[OF this] p show ?case by simp
qed

subsection \<open>States reached from the constructor\<close>

lemma reachable_inv:
  assumes "s = run cs (constructor userData temp v w0)"
  shows "separate s \<and> bounded s"
proof -
  obtain h w where c: "constructor userData temp v w0 = (h, w)"
    by (cases "constructor userData temp v w0")
  have "separate (h, w)" "bounded (h, w)"
    using constructor_state[OF c] by (simp_all add: bounded_def)
  then show ?thesis using run_inv[of "(h, w)" cs] assms c by simp
qed

lemma deleteScreenshot_queues:
  assumes sep: "separate (h, w)" and d: "deleteScreenshot h w path = (res, h', w')"
    and ok: "success res"
  shows "arrays w' (target_queue h') = filter (\<lambda>filePath. filePath \<noteq> path) (arrays w (target_queue h))"
    and "view h = Queue \<Longrightarrow> secondary (h', w') = secondary (h, w)"
    and "view h \<noteq> Queue \<Longrightarrow> primary (h', w') = primary (h, w)"
    and "view h' = view h"
  using deleteScreenshot_cases[OF d] ok sep
  by (auto simp: target_queue_def separate_def)

lemma deleteScreenshot_absent:
  assumes sep: "separate (h, w)" and bd: "bounded (h, w)" and ne: "\<not> existsSync w path"
    and d: "deleteScreenshot h w path = (res, h', w')"
  shows "success res \<and> files w' = files w \<and> \<not> existsSync w' path
     \<and> separate (h', w') \<and> bounded (h', w') \<and> view h' = view h
     \<and> primary (h', w') = (if view h = Queue then filter (\<lambda>x. x \<noteq> path) (primary (h, w))
                            else primary (h, w))
     \<and> secondary (h', w') = (if view h = Queue then secondary (h, w)
                              else filter (\<lambda>x. x \<noteq> path) (secondary (h, w)))"
proof -
  have ok: "success res" using deleteScreenshot_cases[OF d] ne by auto
  have nf: "\<not> isFile w path" using ne by (simp add: existsSync_def)
  then have "filter (\<lambda>e. fst e \<noteq> path) (files w) = files w"
    by (auto simp: isFile_def filter_id_conv)
  then have f: "files w' = files w" and dr: "dirs w' = dirs w"
    using deleteScreenshot_cases[OF d] ok by auto
  have ex: "\<not> existsSync w' path" using ne f dr by (simp add: existsSync_def isFile_def)
  note q = deleteScreenshot_queues[OF sep d ok]
  have "primary (h', w') = (if view h = Queue then filter (\<lambda>x. x \<noteq> path) (primary (h, w))
                            else primary (h, w))"
    using q by (auto simp: target_queue_def)
  moreover have "secondary (h', w') = (if view h = Queue then secondary (h, w)
                              else filter (\<lambda>x. x \<noteq> path) (secondary (h, w)))"
    using q by (auto simp: target_queue_def)
  ultimately show ?thesis using ok f ex q(4) deleteScreenshot_inv[OF d sep bd] by simp
qed

subsection \<open>The concrete inputs evaluated\<close>

lemma failing_capture_fails: "isl (captureScreenshot failing_capture)"
  by code_simp

lemma after_solutions_capture_queues:
  "primary after_solutions_capture = []"
  "secondary after_solutions_capture = [''/data/extra_screenshots/u1.png'']"
  "view (fst after_solutions_capture) = Queue"
  by code_simp+

lemma after_solutions_capture_next:
  "fst (takeScreenshot (fst after_solutions_capture) (snd after_solutions_capture)
         (png_capture ''u2'')) = Inr ''/data/screenshots/u2.png''"
  by code_simp

lemma in_debug_view_facts:
  "primary in_debug_view = []"
  "secondary in_debug_view = []"
  "view (fst in_debug_view) = Debug"
  "fst (takeScreenshot (fst in_debug_view) (snd in_debug_view) (png_capture ''u3''))
     = Inr ''/data/extra_screenshots/u3.png''"
  by code_simp+

lemma in_solutions_view_facts:
  "primary in_solutions_view = []"
  "secondary in_solutions_view = [''/data/extra_screenshots/u1.png'']"
  "view (fst in_solutions_view) = Solutions"
  "isFile (snd in_solutions_view) ''/data/extra_screenshots/u1.png''"
  "\<not> unlink_denied (snd in_solutions_view) ''/data/extra_screenshots/u1.png''"
  by code_simp+

lemma after_solutions_capture_files:
  "isFile (snd after_solutions_capture) ''/data/extra_screenshots/u1.png''"
  "\<not> unlink_denied (snd after_solutions_capture) ''/data/extra_screenshots/u1.png''"
  "existsSync (snd after_solutions_capture) ''/data/extra_screenshots''"
  "\<not> isFile (snd after_solutions_capture) ''/data/extra_screenshots''"
  by code_simp+

lemma full_secondary_service_facts:
  "secondary full_secondary_service =
     [''/data/extra_screenshots/u1.png'', ''/data/extra_screenshots/u2.png'',
      ''/data/extra_screenshots/u3.png'', ''/data/extra_screenshots/u4.png'',
      ''/data/extra_screenshots/u5.png'']"
  "view (fst full_secondary_service) = Solutions"
  "fst (takeScreenshot (fst full_secondary_service) (snd full_secondary_service)
         (png_capture ''u6'')) = Inr ''/data/extra_screenshots/u6.png''"
  "\<not> unlink_denied (snd full_secondary_service) ''/data/extra_screenshots/u1.png''"
  "distinct (uuids_of (SetView Solutions # five_captures) @ [uuid (png_capture ''u6'')])"
  by code_simp+

subsection \<open>Purging the directories\<close>

lemma strip_prefix_append: "strip_prefix xs (xs @ ys) = Some ys"
  by (induction xs) auto

lemma entry_name_path_join:
  "n \<noteq> [] \<Longrightarrow> CHR ''/'' \<notin> set n \<Longrightarrow> entry_name d (path_join d n) = Some n"
  using strip_prefix_append[of "d @ ''/''" n]
  by (simp add: entry_name_def path_join_def)

lemma cleanDirectory_shape:
  assumes "cleanDirectory w d = Inr w'"
  shows "\<exists>ps. w' = unlink_each w ps
           \<and> (\<forall>q\<in>set ps. \<exists>n. q = path_join d n \<and> endsWith n ''.png'')"
proof (cases "existsSync w d")
  case False
  then have "w' = unlink_each w []" using assms by (simp add: cleanDirectory_def)
  then show ?thesis by (metis empty_iff list.set(1))
next
  case True
  then obtain names where "readdirSync w d = Inr names"
    and w': "w' = unlink_each w (map (path_join d) (filter (\<lambda>file. endsWith file ''.png'') names))"
    using assms by (auto simp: cleanDirectory_def split: sum.splits)
  have "\<forall>q\<in>set (map (path_join d) (filter (\<lambda>file. endsWith file ''.png'') names)).
          \<exists>n. q = path_join d n \<and> endsWith n ''.png''"
    by auto
  then show ?thesis using w' by blast
qed

lemma cleanDirectory_lists:
  assumes "d \<in> set (dirs w)" and "\<not> readdir_denied w d"
  shows "\<exists>ps. cleanDirectory w d = Inr (unlink_each w ps)
           \<and> (\<forall>n. n \<noteq> [] \<and> CHR ''/'' \<notin> set n \<and> endsWith n ''.png''
                    \<and> isFile w (path_join d n) \<longrightarrow> path_join d n \<in> set ps)"
proof -
  let ?names = "List.map_filter (entry_name d) (map fst (files w) @ dirs w)"
  let ?ps = "map (path_join d) (filter (\<lambda>file. endsWith file ''.png'') ?names)"
  have ex: "existsSync w d" using assms(1) by (simp add: existsSync_def)
  have rd: "readdirSync w d = Inr ?names" using assms by (simp add: readdirSync_def)
  have c: "cleanDirectory w d = Inr (unlink_each w ?ps)"
    using ex rd by (simp add: cleanDirectory_def)
  have "path_join d n \<in> set ?ps"
    if "n \<noteq> []" "CHR ''/'' \<notin> set n" "endsWith n ''.png''" "isFile w (path_join d n)" for n
  proof -
    have "path_join d n \<in> set (map fst (files w) @ dirs w)"
      using that(4) by (auto simp: isFile_def)
    then have "n \<in> set ?names"
      using entry_name_path_join[OF that(1,2), of d]
      by (force simp: List.map_filter_def image_iff)
    then show ?thesis using that(3) by simp
  qed
  then show ?thesis using c by blast
qed


lemma unlink_each_readdir:
  "readdir_denied (unlink_each w ps) = readdir_denied w"
proof (induction ps arbitrary: w)
  case Nil show ?case by simp
next
  case (Cons a ps)
  have "readdir_denied (case unlink w a of Inl err \<Rightarrow> w | Inr w' \<Rightarrow> w') = readdir_denied w"
    by (simp add: unlink_def)
  then show ?case using Cons.IH by simp
qed

lemma cleanDirectory_only_removes:
  assumes "cleanDirectory w d = Inr w'" and "isFile w' q"
  shows "isFile w q"
  using cleanDirectory_shape[OF assms(1)] assms(2) unlink_each_isFile_mono by blast

lemma cleanDirectory_keeps:
  assumes "cleanDirectory w d = Inr w'"
    and "unlink_denied w q \<or> (\<forall>n. q = path_join d n \<longrightarrow> \<not> endsWith n ''.png'')"
  shows "isFile w' q = isFile w q"
proof -
  obtain ps where w': "w' = unlink_each w ps"
    and ps: "\<forall>q\<in>set ps. \<exists>n. q = path_join d n \<and> endsWith n ''.png''"
    using cleanDirectory_shape[OF assms(1)] by blast
  have "q \<notin> set ps \<or> unlink_denied w q" using assms(2) ps by blast
  then show ?thesis unfolding w' by (rule unlink_each_keeps)
qed

lemma cleanDirectory_removes:
  assumes "d \<in> set (dirs w)" and "\<not> readdir_denied w d"
    and "n \<noteq> []" and "CHR ''/'' \<notin> set n" and "endsWith n ''.png''"
    and "\<not> unlink_denied w (path_join d n)"
  shows "\<exists>w'. cleanDirectory w d = Inr w' \<and> \<not> isFile w' (path_join d n)"
proof -
  obtain ps where c: "cleanDirectory w d = Inr (unlink_each w ps)"
    and ps: "\<forall>n. n \<noteq> [] \<and> CHR ''/'' \<notin> set n \<and> endsWith n ''.png''
                    \<and> isFile w (path_join d n) \<longrightarrow> path_join d n \<in> set ps"
    using cleanDirectory_lists[OF assms(1,2)] by blast
  show ?thesis
  proof (cases "isFile w (path_join d n)")
    case True
    then have "path_join d n \<in> set ps" using ps assms(3,4,5) by blast
    then have "\<not> isFile (unlink_each w ps) (path_join d n)"
      using assms(6) by (rule unlink_each_removes)
    then show ?thesis using c by blast
  next
    case False
    then have "\<not> isFile (unlink_each w ps) (path_join d n)"
      using unlink_each_isFile_mono by blast
    then show ?thesis using c by blast
  qed
qed

lemma cleanScreenshotDirectories_only_removes:
  "isFile (cleanScreenshotDirectories h w) q \<Longrightarrow> isFile w q"
  by (auto simp: cleanScreenshotDirectories_def split: sum.splits
      dest: cleanDirectory_only_removes)

lemma cleanScreenshotDirectories_keeps:
  assumes "unlink_denied w q
     \<or> (\<forall>n. q = path_join (screenshotDir h) n \<or> q = path_join (extraScreenshotDir h) n
            \<longrightarrow> \<not> endsWith n ''.png'')"
  shows "isFile (cleanScreenshotDirectories h w) q = isFile w q"
proof (cases "cleanDirectory w (screenshotDir h)")
  case (Inl e)
  then show ?thesis by (simp add: cleanScreenshotDirectories_def)
next
  case (Inr w1)
  have k1: "isFile w1 q = isFile w q"
    using cleanDirectory_keeps[OF Inr, of q] assms by blast
  have d1: "unlink_denied w1 = unlink_denied w" using cleanDirectory_frame[OF Inr] by simp
  show ?thesis
  proof (cases "cleanDirectory w1 (extraScreenshotDir h)")
    case (Inl e)
    then show ?thesis using Inr k1 by (simp add: cleanScreenshotDirectories_def)
  next
    case (Inr w2)
    have "isFile w2 q = isFile w1 q"
      using cleanDirectory_keeps[OF Inr, of q] assms d1 by auto
    then show ?thesis using \<open>cleanDirectory w (screenshotDir h) = Inr w1\<close> Inr k1
      by (simp add: cleanScreenshotDirectories_def)
  qed
qed

lemma cleanScreenshotDirectories_removes:
  assumes dirs: "screenshotDir h \<in> set (dirs w)" "extraScreenshotDir h \<in> set (dirs w)"
    and rd: "\<not> readdir_denied w (screenshotDir h)" "\<not> readdir_denied w (extraScreenshotDir h)"
    and d: "d = screenshotDir h \<or> d = extraScreenshotDir h"
    and n: "n \<noteq> []" "CHR ''/'' \<notin> set n" "endsWith n ''.png''"
    and u: "\<not> unlink_denied w (path_join d n)"
  shows "\<not> isFile (cleanScreenshotDirectories h w) (path_join d n)"
proof -
  obtain ps where c1: "cleanDirectory w (screenshotDir h) = Inr (unlink_each w ps)"
    using cleanDirectory_lists[OF dirs(1) rd(1)] by blast
  let ?w1 = "unlink_each w ps"
  have f1: "dirs ?w1 = dirs w" "unlink_denied ?w1 = unlink_denied w"
    "readdir_denied ?w1 = readdir_denied w"
    by (simp_all add: unlink_each_frame unlink_each_readdir)
  obtain w2 where c2: "cleanDirectory ?w1 (extraScreenshotDir h) = Inr w2"
    using cleanDirectory_lists[of "extraScreenshotDir h" ?w1] dirs(2) rd(2) f1 by auto
  have r: "cleanScreenshotDirectories h w = w2"
    using c1 c2 by (simp add: cleanScreenshotDirectories_def)
  show ?thesis
  proof (cases "d = screenshotDir h")
    case True
    obtain w1' where "cleanDirectory w d = Inr w1'" "\<not> isFile w1' (path_join d n)"
      using cleanDirectory_removes[of d w n] dirs(1) rd(1) n u True by auto
    then have "\<not> isFile ?w1 (path_join d n)" using c1 True by simp
    then show ?thesis using r cleanDirectory_only_removes[OF c2] by blast
  next
    case False
    then have e: "d = extraScreenshotDir h" using d by simp
    obtain w2' where "cleanDirectory ?w1 d = Inr w2'" "\<not> isFile w2' (path_join d n)"
      using cleanDirectory_removes[of d ?w1 n] dirs(2) rd(2) n u e f1 by auto
    then show ?thesis using r c2 e by simp
  qed
qed

subsection \<open>Entries are named by the uuids drawn\<close>

lemma path_join_png_inject:
  "path_join d (u @ ''.png'') = path_join d (u' @ ''.png'') \<longleftrightarrow> u = u'"
  by (simp add: path_join_def)

lemma named_mono: "named U s \<Longrightarrow> U \<subseteq> V \<Longrightarrow> named V s"
  unfolding named_def by blast

lemma uuids_of_append: "uuids_of (xs @ ys) = uuids_of xs @ uuids_of ys"
  by (induction xs rule: uuids_of.induct) simp_all

lemma enqueue_distinct:
  assumes "distinct old" and "p \<notin> set old"
  shows "distinct (if length old < MAX_SCREENSHOTS then old @ [p] else tl old @ [p])"
  using assms by (cases old) auto

lemma takeScreenshot_named:
  assumes t: "takeScreenshot h w env = (r, w')" and sep: "separate (h, w)"
    and nm: "named U (h, w)" and u: "uuid env \<notin> U"
  shows "named (insert (uuid env) U) (h, w')"
proof (cases r)
  case (Inl e)
  then have "arrays w' = arrays w" using takeScreenshot_heap[OF t] by simp
  then have "named U (h, w')" using nm by (simp add: named_def)
  then show ?thesis by (rule named_mono) blast
next
  case (Inr p)
  let ?q = "target_queue h"
  let ?d = "target_dir h"
  let ?new = "if length (arrays w ?q) < MAX_SCREENSHOTS then arrays w ?q @ [p]
              else tl (arrays w ?q) @ [p]"
  have ar: "arrays w' = (arrays w)(?q := ?new)"
    and p: "p = path_join ?d (uuid env @ ''.png'')"
    using takeScreenshot_heap[OF t] Inr by simp_all
  have old: "distinct (arrays w ?q)"
    "set (arrays w ?q) \<subseteq> (\<lambda>u. path_join ?d (u @ ''.png'')) ` U"
    using nm by (auto simp: named_def target_queue_def target_dir_def)
  have pn: "p \<notin> set (arrays w ?q)"
  proof
    assume "p \<in> set (arrays w ?q)"
    then obtain u' where "u' \<in> U" "p = path_join ?d (u' @ ''.png'')" using old(2) by blast
    then show False using p u by (simp add: path_join_png_inject)
  qed
  have dn: "distinct ?new" using enqueue_distinct[OF old(1) pn] .
  have sn: "set ?new \<subseteq> (\<lambda>u. path_join ?d (u @ ''.png'')) ` insert (uuid env) U"
    using enqueue_set[of "arrays w ?q" p] old(2) p by auto
  have rest: "named (insert (uuid env) U) (h, w)" using nm by (rule named_mono) blast
  show ?thesis
  proof (cases "view h = Queue")
    case True
    then show ?thesis using dn sn rest sep ar
      by (simp add: named_def target_queue_def target_dir_def separate_def)
  next
    case False
    then show ?thesis using dn sn rest sep ar
      by (simp add: named_def target_queue_def target_dir_def separate_def)
  qed
qed

lemma deleteScreenshot_named:
  assumes d: "deleteScreenshot h w path = (res, h', w')" and sep: "separate (h, w)"
    and nm: "named U (h, w)"
  shows "named U (h', w')"
proof (cases "success res")
  case False
  then show ?thesis using deleteScreenshot_cases[OF d] nm by auto
next
  case True
  have dirs: "screenshotDir h' = screenshotDir h" "extraScreenshotDir h' = extraScreenshotDir h"
    using deleteScreenshot_cases[OF d] True by (auto split: if_splits)
  note q = deleteScreenshot_queues[OF sep d True]
  show ?thesis
  proof (cases "view h = Queue")
    case True
    then show ?thesis using q nm dirs
      by (auto simp: named_def target_queue_def)
  next
    case False
    then show ?thesis using q nm dirs
      by (auto simp: named_def target_queue_def)
  qed
qed

lemma perform_named:
  assumes "separate s" and "named U s" and "set (uuids_of [c]) \<inter> U = {}"
  shows "named (U \<union> set (uuids_of [c])) (perform c s)"
proof -
  obtain h w where s: "s = (h, w)" by (cases s)
  show ?thesis
  proof (cases c)
    case (SetView v)
    then show ?thesis using assms s by (simp add: setView_def named_def)
  next
    case (TakeScreenshot env)
    obtain r w' where t: "takeScreenshot h w env = (r, w')" by (cases "takeScreenshot h w env")
    have "uuid env \<notin> U" using assms(3) TakeScreenshot by simp
    then show ?thesis using takeScreenshot_named[OF t] assms s TakeScreenshot t by simp
  next
    case (DeleteScreenshot path)
    obtain res h' w' where d: "deleteScreenshot h w path = (res, h', w')"
      by (cases "deleteScreenshot h w path") auto
    then show ?thesis using deleteScreenshot_named[OF d] assms s DeleteScreenshot by simp
  next
    case ClearQueues
    obtain h' w' where c: "clearQueues h w = (h', w')" by (cases "clearQueues h w")
    then show ?thesis using clearQueues_state[OF c] s ClearQueues
      by (simp add: named_def)
  next
    case ClearExtraScreenshotQueue
    obtain h' w' where c: "clearExtraScreenshotQueue h w = (h', w')"
      by (cases "clearExtraScreenshotQueue h w")
    then show ?thesis using clearExtraScreenshotQueue_state[OF c] s ClearExtraScreenshotQueue assms
      by (auto simp: named_def separate_def)
  qed
qed

lemma run_named:
  "separate s \<Longrightarrow> bounded s \<Longrightarrow> named U s \<Longrightarrow> distinct (uuids_of cs) \<Longrightarrow>
     set (uuids_of cs) \<inter> U = {} \<Longrightarrow> named (U \<union> set (uuids_of cs)) (run cs s)"
proof (induction cs arbitrary: s U)
  case Nil then show ?case by simp
next
  case (Cons c cs)
  have ua: "uuids_of (c # cs) = uuids_of [c] @ uuids_of cs"
    using uuids_of_append[of "[c]" cs] by simp
  have i: "separate (perform c s)" "bounded (perform c s)"
    using perform_inv[OF Cons.prems(1,2), of c] by simp_all
  have d1: "set (uuids_of [c]) \<inter> U = {}" using Cons.prems(5) ua by auto
  have n: "named (U \<union> set (uuids_of [c])) (perform c s)"
    using perform_named[OF Cons.prems(1,3) d1] .
  have d2: "distinct (uuids_of cs)" using Cons.prems(4) ua by simp
  have d3: "set (uuids_of cs) \<inter> (U \<union> set (uuids_of [c])) = {}"
    using Cons.prems(4,5) ua by auto
  have "named (U \<union> set (uuids_of [c]) \<union> set (uuids_of cs)) (run cs (perform c s))"
    using Cons.IH[OF i n d2 d3] .
  then show ?case using ua by (simp add: Un_assoc)
qed

lemma reachable_named:
  assumes "s = run cs (constructor userData temp v w0)" and "distinct (uuids_of cs)"
  shows "named (set (uuids_of cs)) s"
proof -
  obtain h w where c: "constructor userData temp v w0 = (h, w)"
    by (cases "constructor userData temp v w0")
  have "separate (h, w)" "bounded (h, w)" "named {} (h, w)"
    using constructor_state[OF c] by (simp_all add: bounded_def named_def)
  then show ?thesis using run_named[of "(h, w)" "{}" cs] assms c by simp
qed


lemma eviction_at_capacity:
  assumes s: "s = run cs (constructor userData temp v w0)"
    and t: "takeScreenshot (fst s) (snd s) env = (Inr p, w')"
    and old: "old = arrays (snd s) (target_queue (fst s))"
    and full: "length old = MAX_SCREENSHOTS"
  shows "arrays w' (target_queue (fst s)) = tl old @ [p]"
    and "length (arrays w' (target_queue (fst s))) = MAX_SCREENSHOTS"
    and "\<not> unlink_denied (snd s) (hd old) \<Longrightarrow> \<not> isFile w' (hd old)"
    and "distinct (uuids_of cs @ [uuid env]) \<Longrightarrow> hd old \<notin> set (tl old @ [p])"
proof -
  have ne: "old \<noteq> []" using full by (auto simp: MAX_SCREENSHOTS_def)
  have bd: "bounded s" using reachable_inv[OF s] by simp
  have "[] \<notin> set old" using bd old
    by (cases s) (auto simp: bounded_def target_queue_def)
  then have hd: "hd old \<noteq> []" using ne by (cases old) auto
  show a: "arrays w' (target_queue (fst s)) = tl old @ [p]"
    using takeScreenshot_heap[OF t] old full by simp
  show "length (arrays w' (target_queue (fst s))) = MAX_SCREENSHOTS"
    using a ne full by (simp add: MAX_SCREENSHOTS_def)
  obtain buf where sv: "saveToQueue (target_dir (fst s)) (target_queue (fst s)) p buf (snd s)
      = (None, w')"
    and p: "p = path_join (target_dir (fst s)) (uuid env @ ''.png'')"
    using takeScreenshot_Inr[OF t] by blast
  show "\<not> isFile w' (hd old)" if "\<not> unlink_denied (snd s) (hd old)"
    using saveToQueue_evicts[OF sv] full hd that old by simp
  show "hd old \<notin> set (tl old @ [p])" if d: "distinct (uuids_of cs @ [uuid env])"
  proof -
    have "named (set (uuids_of cs)) s" using reachable_named[OF s] d by simp
    then have o: "distinct old"
      "set old \<subseteq> (\<lambda>u. path_join (target_dir (fst s)) (u @ ''.png'')) ` set (uuids_of cs)"
      using old by (auto simp: named_def target_queue_def target_dir_def primary_def secondary_def)
    have "p \<notin> set old"
    proof
      assume "p \<in> set old"
      then obtain u' where "u' \<in> set (uuids_of cs)"
        "p = path_join (target_dir (fst s)) (u' @ ''.png'')" using o(2) by blast
      then show False using p d by (simp add: path_join_png_inject)
    qed
    then have "hd old \<noteq> p" using ne by (cases old) auto
    moreover have "hd old \<notin> set (tl old)" using o(1) ne by (cases old) auto
    ultimately show ?thesis by simp
  qed
qed

lemma full_service_facts:
  "primary full_service =
     [''/data/screenshots/u1.png'', ''/data/screenshots/u2.png'', ''/data/screenshots/u3.png'',
      ''/data/screenshots/u4.png'', ''/data/screenshots/u5.png'']"
  "view (fst full_service) = Queue"
  "fst (takeScreenshot (fst full_service) (snd full_service) (png_capture ''u6''))
     = Inr ''/data/screenshots/u6.png''"
  "\<not> unlink_denied (snd full_service) ''/data/screenshots/u1.png''"
  "distinct (uuids_of five_captures @ [uuid (png_capture ''u6'')])"
  by code_simp+

subsection \<open>Arrays held by a caller\<close>

lemma caller_sets_fields [simp]:
  "arrays (caller_sets r xs w) = (arrays w)(r := xs)"
  "fresh (caller_sets r xs w) = fresh w"
  by (simp_all add: caller_sets_def)

lemma capture_after_mutation:
  assumes "takeScreenshot h (caller_sets (target_queue h) xs w) env = (Inr p, w')"
  shows "arrays w' (target_queue h) =
           (if length xs < MAX_SCREENSHOTS then xs @ [p] else tl xs @ [p])"
  using takeScreenshot_heap[OF assms] by simp

lemma delete_detaches:
  assumes sep: "separate (h, w)" and d: "deleteScreenshot h w path = (res, h', w')"
    and ok: "success res"
  shows "view h = Queue \<Longrightarrow>
           screenshotQueue h' \<noteq> screenshotQueue h
         \<and> arrays (caller_sets (screenshotQueue h) xs w') (screenshotQueue h')
             = arrays w' (screenshotQueue h')
         \<and> extraScreenshotQueue h' = extraScreenshotQueue h"
    and "view h \<noteq> Queue \<Longrightarrow>
           extraScreenshotQueue h' \<noteq> extraScreenshotQueue h
         \<and> arrays (caller_sets (extraScreenshotQueue h) xs w') (extraScreenshotQueue h')
             = arrays w' (extraScreenshotQueue h')
         \<and> screenshotQueue h' = screenshotQueue h"
  using deleteScreenshot_cases[OF d] ok sep
  by (auto simp: separate_def)

lemma fresh_service_reached:
  "fresh_service = run [] (constructor ''/data'' ''/tmp'' Queue empty_world)"
  by (simp add: fresh_service_def)

lemma fresh_service_facts:
  "view (fst fresh_service) = Queue"
  "fst (takeScreenshot (fst fresh_service)
         (caller_sets (getScreenshotQueue (fst fresh_service)) [''x''] (snd fresh_service))
         (png_capture ''u1'')) = Inr ''/data/screenshots/u1.png''"
  "success (fst (deleteScreenshot (fst fresh_service) (snd fresh_service)
                  ''/data/screenshots/u9.png''))"
  "primary (snd (deleteScreenshot (fst fresh_service) (snd fresh_service)
                  ''/data/screenshots/u9.png'')) = []"
  by code_simp+

lemma isFile_after_write:
  "writeFile w p data = Inr w1 \<Longrightarrow> isFile w a \<Longrightarrow> isFile w1 a"
  by (auto simp: writeFile_def isFile_def image_iff split: if_splits)

lemma isFile_after_refused_unlink:
  "unlink_denied w a \<Longrightarrow> isFile w a \<Longrightarrow>
     isFile (case unlink w r of Inl err \<Rightarrow> w | Inr w5 \<Rightarrow> w5) a"
  by (cases "r = a") (auto simp: unlink_def)

lemma saveToQueue_keeps_refused:
  assumes sv: "saveToQueue dir q p buf w = (None, w')" and den: "unlink_denied w a"
    and fl: "isFile w a"
  shows "isFile w' a"
proof -
  obtain w1 where m: "(if \<not> existsSync w dir then mkdirSync w dir else Inr w) = Inr w1"
    using sv by (cases "if \<not> existsSync w dir then mkdirSync w dir else Inr w")
      (auto simp: saveToQueue_def)
  obtain w2 where wr: "writeFile w1 p buf = Inr w2"
    using sv m by (cases "writeFile w1 p buf") (auto simp: saveToQueue_def)
  have f1: "isFile w1 a" "unlink_denied w1 = unlink_denied w"
    using m fl by (auto simp: mkdirSync_def isFile_def split: if_splits)
  have f2: "isFile w2 a" using isFile_after_write[OF wr f1(1)] .
  have d2: "unlink_denied w2 a" using wr f1(2) den by (auto simp: writeFile_def split: if_splits)
  let ?w4 = "w2\<lparr>arrays := (arrays w2)(q := tl (arrays w2 q @ [p]))\<rparr>"
  have f4: "isFile ?w4 a" "unlink_denied ?w4 a" using f2 d2 by simp_all
  have f3: "isFile (push q p w2) a" using f2 by (simp add: isFile_def)
  have "w' = push q p w2 \<or> w' = ?w4
      \<or> w' = (case unlink ?w4 (hd (arrays w2 q @ [p])) of Inl err \<Rightarrow> ?w4 | Inr w5 \<Rightarrow> w5)"
    using sv m wr
    by (auto simp: saveToQueue_def Let_def shift_push split: if_splits sum.splits)
  then show ?thesis
    using f3 f4 isFile_after_refused_unlink[OF f4(2) f4(1)] by auto
qed

lemma full_locked_service_facts:
  "primary full_locked_service =
     [''/data/screenshots/u1.png'', ''/data/screenshots/u2.png'', ''/data/screenshots/u3.png'',
      ''/data/screenshots/u4.png'', ''/data/screenshots/u5.png'']"
  "view (fst full_locked_service) = Queue"
  "fst (takeScreenshot (fst full_locked_service) (snd full_locked_service)
         (png_capture ''u6'')) = Inr ''/data/screenshots/u6.png''"
  "unlink_denied (snd full_locked_service) ''/data/screenshots/u1.png''"
  "isFile (snd full_locked_service) ''/data/screenshots/u1.png''"
  by code_simp+

section \<open>The claims\<close>

subsection \<open>Validator and orchestrator\<close>

lemma padded_png_valid: "isValidPng padded_png \<and> length padded_png = 1024"
  by (simp add: isValidPng_def padded_png_def pngSignature_def)

lemma method_accepts:
  "method1 r = Inr b \<Longrightarrow> isValidPng b \<and> 1024 \<le> length b"
  "method2 r = Inr b \<Longrightarrow> isValidPng b \<and> 1024 \<le> length b"
  by (auto simp: method1_def method2_def split: sum.splits temp_file.splits if_splits)

text \<open>
  C3, as amended. \<^verbatim>\<open>isValidPng\<close> returns true exactly for the buffers of at least 8
  bytes whose first 8 bytes are the PNG signature; so it returns false for every buffer
  shorter than 8 bytes and for every buffer whose first byte is not 0x89. It has no
  minimum size: the threshold of 1024 bytes is a separate check that each Windows
  strategy makes after \<^verbatim>\<open>isValidPng\<close>, so a buffer that Method 1 or Method 2 returns is
  valid and at least 1024 bytes long.
\<close>

theorem isValidPng_signature_only:
  "isValidPng b = (8 \<le> length b \<and> take 8 b = pngSignature)
   \<and> (length b < 8 \<longrightarrow> \<not> isValidPng b)
   \<and> (hd b \<noteq> 0x89 \<longrightarrow> \<not> isValidPng b)
   \<and> (method1 r = Inr b \<longrightarrow> isValidPng b \<and> 1024 \<le> length b)
   \<and> (method2 r = Inr b \<longrightarrow> isValidPng b \<and> 1024 \<le> length b)"
proof -
  have "hd b \<noteq> 0x89 \<longrightarrow> \<not> isValidPng b"
    by (cases b) (auto simp: isValidPng_def pngSignature_def)
  then show ?thesis using method_accepts[of r b]
    by (auto simp: isValidPng_def)
qed

theorem isValidPng_signature_only_witness:
  "\<not> isValidPng [0x89, 0x50]
   \<and> \<not> isValidPng [0x00, 0x50, 0x4e, 0x47, 0x0d, 0x0a, 0x1a, 0x0a]
   \<and> method1 written = Inr padded_png \<and> method2 written = Inr padded_png
   \<and> isValidPng padded_png \<and> 1024 \<le> length padded_png"
proof -
  have short: "\<not> isValidPng [0x89, 0x50]"
    using isValidPng_signature_only[of "[0x89, 0x50]" written] by simp
  have corrupt: "\<not> isValidPng [0x00, 0x50, 0x4e, 0x47, 0x0d, 0x0a, 0x1a, 0x0a]"
    using isValidPng_signature_only[of "[0x00, 0x50, 0x4e, 0x47, 0x0d, 0x0a, 0x1a, 0x0a]" written]
    by (simp add: pngSignature_def)
  have m: "method1 written = Inr padded_png" "method2 written = Inr padded_png"
    using padded_png_valid
    by (simp_all add: method1_def method2_def withTimeout_def written_def)
  have "isValidPng padded_png \<and> 1024 \<le> length padded_png"
    using isValidPng_signature_only[of padded_png written] m by blast
  then show ?thesis using short corrupt m by simp
qed

text \<open>
  The claim as stated fails at the signature itself: 8 bytes, below the threshold,
  and \<^verbatim>\<open>isValidPng\<close> returns true.
\<close>

theorem isValidPng_counterexample:
  "isValidPng pngSignature \<and> length pngSignature < 1024"
  by (simp add: isValidPng_def pngSignature_def)

text \<open>
  C2. If both strategies fail in each of the attempts 1 to \<^verbatim>\<open>maxRetries\<close> = 3,
  \<^verbatim>\<open>captureWindowsScreenshot\<close> throws after exactly three rounds, having slept 200 ms
  after round 1 and 400 ms after round 2 and not after round 3; \<^verbatim>\<open>errors\<close> holds one
  entry per strategy and attempt, six in all, each starting with its method and
  attempt number, and the message thrown is the fixed prefix followed by these
  entries joined by \<^verbatim>\<open>"; "\<close>.
\<close>

theorem orchestrator_exhaustion:
  assumes "\<forall>a. 1 \<le> a \<and> a \<le> maxRetries \<longrightarrow>
             isl (method1 (env Method1 a)) \<and> isl (method2 (env Method2 a))"
  shows "captureWindowsScreenshot env =
     \<lparr>outcome = Inl (''Could not capture screenshot after 3 attempts. Errors: '' @
         join ''; ''
          [''Method 1 (attempt 1): '' @ projl (method1 (env Method1 1)),
           ''Method 2 (attempt 1): '' @ projl (method2 (env Method2 1)),
           ''Method 1 (attempt 2): '' @ projl (method1 (env Method1 2)),
           ''Method 2 (attempt 2): '' @ projl (method2 (env Method2 2)),
           ''Method 1 (attempt 3): '' @ projl (method1 (env Method1 3)),
           ''Method 2 (attempt 3): '' @ projl (method2 (env Method2 3))]),
      errors =
          [''Method 1 (attempt 1): '' @ projl (method1 (env Method1 1)),
           ''Method 2 (attempt 1): '' @ projl (method2 (env Method2 1)),
           ''Method 1 (attempt 2): '' @ projl (method1 (env Method1 2)),
           ''Method 2 (attempt 2): '' @ projl (method2 (env Method2 2)),
           ''Method 1 (attempt 3): '' @ projl (method1 (env Method1 3)),
           ''Method 2 (attempt 3): '' @ projl (method2 (env Method2 3))],
      steps = [Ran Method1 1, Ran Method2 1, Slept 200,
               Ran Method1 2, Ran Method2 2, Slept 400,
               Ran Method1 3, Ran Method2 3]\<rparr>
   \<and> length (errors (captureWindowsScreenshot env)) = 2 * maxRetries"
proof -
  have f: "method1 (env Method1 a) = Inl (projl (method1 (env Method1 a)))
         \<and> method2 (env Method2 a) = Inl (projl (method2 (env Method2 a)))"
    if "1 \<le> a" "a \<le> 3" for a
    using assms that by (simp add: maxRetries_def)
  have s1: "attempts env 1 [] [] =
      attempts env 2
        [''Method 1 (attempt 1): '' @ projl (method1 (env Method1 1)),
         ''Method 2 (attempt 1): '' @ projl (method2 (env Method2 1))]
        [Ran Method1 1, Ran Method2 1, Slept 200]"
    using attempts_round_fails[of "Suc 0" env _ _ "[]" "[]"] f[of 1]
    by (simp add: maxRetries_def show_nat_digits numeral_2_eq_2)
  have s2: "attempts env 2 es tr =
      attempts env 3
        (es @ [''Method 1 (attempt 2): '' @ projl (method1 (env Method1 2)),
               ''Method 2 (attempt 2): '' @ projl (method2 (env Method2 2))])
        (tr @ [Ran Method1 2, Ran Method2 2, Slept 400])" for es tr
    using attempts_round_fails[of 2 env _ _ es tr] f[of 2]
    by (simp add: maxRetries_def show_nat_digits)
  have s3: "attempts env 3 es tr =
      attempts env 4
        (es @ [''Method 1 (attempt 3): '' @ projl (method1 (env Method1 3)),
               ''Method 2 (attempt 3): '' @ projl (method2 (env Method2 3))])
        (tr @ [Ran Method1 3, Ran Method2 3])" for es tr
    using attempts_round_fails[of 3 env _ _ es tr] f[of 3]
    by (simp add: maxRetries_def show_nat_digits)
  show ?thesis
    unfolding captureWindowsScreenshot_def s1 s2 s3
    by (simp add: attempts_exhausted maxRetries_def show_nat_digits)
qed

theorem orchestrator_exhaustion_witness:
  "captureWindowsScreenshot (\<lambda>m a. timed_out) =
     \<lparr>outcome = Inl (''Could not capture screenshot after 3 attempts. Errors: '' @
         ''Method 1 (attempt 1): screenshot-desktop timed out after 5 seconds; '' @
         ''Method 2 (attempt 1): PowerShell screenshot timed out after 10 seconds; '' @
         ''Method 1 (attempt 2): screenshot-desktop timed out after 5 seconds; '' @
         ''Method 2 (attempt 2): PowerShell screenshot timed out after 10 seconds; '' @
         ''Method 1 (attempt 3): screenshot-desktop timed out after 5 seconds; '' @
         ''Method 2 (attempt 3): PowerShell screenshot timed out after 10 seconds''),
      errors =
         [''Method 1 (attempt 1): screenshot-desktop timed out after 5 seconds'',
          ''Method 2 (attempt 1): PowerShell screenshot timed out after 10 seconds'',
          ''Method 1 (attempt 2): screenshot-desktop timed out after 5 seconds'',
          ''Method 2 (attempt 2): PowerShell screenshot timed out after 10 seconds'',
          ''Method 1 (attempt 3): screenshot-desktop timed out after 5 seconds'',
          ''Method 2 (attempt 3): PowerShell screenshot timed out after 10 seconds''],
      steps = [Ran Method1 1, Ran Method2 1, Slept 200,
               Ran Method1 2, Ran Method2 2, Slept 400,
               Ran Method1 3, Ran Method2 3]\<rparr>"
  using orchestrator_exhaustion[of "\<lambda>m a. timed_out"]
  by (simp add: method1_def method2_def withTimeout_def timed_out_def)

text \<open>
  C6. If Method 1 fails in attempt 1 and Method 2 returns a buffer in attempt 1 (in
  particular when Method 1 always fails and Method 2 always succeeds), the call
  returns that buffer after running exactly Method 1 and Method 2 of attempt 1: no
  sleep, no second round. \<^verbatim>\<open>errors\<close> holds the single entry of Method 1, attempt 1, and
  the buffer returned passed both checks.
\<close>

theorem orchestrator_fallback:
  assumes "isl (method1 (env Method1 1))" and "method2 (env Method2 1) = Inr buf"
  shows "captureWindowsScreenshot env =
     \<lparr>outcome = Inr buf,
      errors = [''Method 1 (attempt 1): '' @ projl (method1 (env Method1 1))],
      steps = [Ran Method1 1, Ran Method2 1]\<rparr>
    \<and> isValidPng buf \<and> 1024 \<le> length buf"
proof -
  obtain m where m: "method1 (env Method1 (Suc 0)) = Inl m"
    using assms(1) by (cases "method1 (env Method1 (Suc 0))") auto
  have "attempts env (Suc 0) [] [] =
      \<lparr>outcome = Inr buf, errors = [''Method 1 (attempt 1): '' @ m],
       steps = [Ran Method1 1, Ran Method2 1]\<rparr>"
    using m assms(2)
    by (simp add: attempts.simps[of _ "Suc 0"] maxRetries_def show_nat_digits)
  then show ?thesis using m method_accepts(2)[OF assms(2)]
    by (simp add: captureWindowsScreenshot_def)
qed

theorem orchestrator_fallback_witness:
  "captureWindowsScreenshot (\<lambda>m a. if m = Method1 then timed_out else written) =
     \<lparr>outcome = Inr padded_png,
      errors = [''Method 1 (attempt 1): screenshot-desktop timed out after 5 seconds''],
      steps = [Ran Method1 1, Ran Method2 1]\<rparr>"
  using orchestrator_fallback[of "\<lambda>m a. if m = Method1 then timed_out else written" padded_png]
    padded_png_valid
  by (simp add: method1_def method2_def withTimeout_def timed_out_def written_def)

subsection \<open>Captures and the queues\<close>

text \<open>
  C10. \<^verbatim>\<open>takeScreenshot\<close> throws when the capture fails, when the buffer is empty, when
  the buffer is not a valid PNG and when the file cannot be written; whenever it
  throws, the whole heap of arrays, and so both queues, is as before the call. When it
  returns a path, the write of that path was not refused and the path is the last
  entry of the queue of the current view: the push comes after the write.
\<close>

theorem takeScreenshot_atomic_on_failure:
  assumes "takeScreenshot h w env = (r, w')"
  shows "(isl (captureScreenshot env) \<longrightarrow> isl r)
    \<and> (\<forall>buf. captureScreenshot env = Inr buf \<and> (length buf = 0 \<or> \<not> isValidPng buf) \<longrightarrow> isl r)
    \<and> (write_denied w (path_join (target_dir h) (uuid env @ ''.png'')) \<longrightarrow> isl r)
    \<and> (isl r \<longrightarrow> arrays w' = arrays w
          \<and> primary (h, w') = primary (h, w) \<and> secondary (h, w') = secondary (h, w))
    \<and> (\<forall>p. r = Inr p \<longrightarrow>
          p = path_join (target_dir h) (uuid env @ ''.png'') \<and> \<not> write_denied w p
          \<and> last (arrays w' (target_queue h)) = p)"
proof -
  have a: "isl (captureScreenshot env) \<longrightarrow> isl r"
    using assms by (auto simp: takeScreenshot_def split: sum.splits)
  have b: "\<forall>buf. captureScreenshot env = Inr buf \<and> (length buf = 0 \<or> \<not> isValidPng buf) \<longrightarrow> isl r"
  proof (cases r)
    case (Inl e) then show ?thesis by simp
  next
    case (Inr p)
    then obtain buf where "captureScreenshot env = Inr buf" "buf \<noteq> []" "isValidPng buf"
      using assms takeScreenshot_Inr[of h w env p w'] by auto
    then show ?thesis by auto
  qed
  have c: "write_denied w (path_join (target_dir h) (uuid env @ ''.png'')) \<longrightarrow> isl r"
  proof (cases r)
    case (Inl e) then show ?thesis by simp
  next
    case (Inr p)
    then obtain buf where "p = path_join (target_dir h) (uuid env @ ''.png'')"
      and "saveToQueue (target_dir h) (target_queue h) p buf w = (None, w')"
      using assms takeScreenshot_Inr[of h w env p w'] by auto
    then show ?thesis using saveToQueue_write_denied[of w p "target_dir h" "target_queue h" buf]
      by auto
  qed
  have d: "isl r \<longrightarrow> arrays w' = arrays w
          \<and> primary (h, w') = primary (h, w) \<and> secondary (h, w') = secondary (h, w)"
    using takeScreenshot_heap[OF assms] by (cases r) simp_all
  have e: "\<forall>p. r = Inr p \<longrightarrow>
          p = path_join (target_dir h) (uuid env @ ''.png'') \<and> \<not> write_denied w p
          \<and> last (arrays w' (target_queue h)) = p"
    using takeScreenshot_heap[OF assms] c by (cases r) auto
  show ?thesis using a b c d e by blast
qed

theorem takeScreenshot_atomic_on_failure_witness:
  "isl (fst (takeScreenshot (fst fresh_service) (snd fresh_service) failing_capture))
   \<and> primary (fst fresh_service,
               snd (takeScreenshot (fst fresh_service) (snd fresh_service) failing_capture))
     = primary fresh_service
   \<and> secondary (fst fresh_service,
               snd (takeScreenshot (fst fresh_service) (snd fresh_service) failing_capture))
     = secondary fresh_service
   \<and> fst (takeScreenshot (fst fresh_service) (snd fresh_service) (png_capture ''u1''))
     = Inr ''/data/screenshots/u1.png''
   \<and> last (primary (fst fresh_service,
               snd (takeScreenshot (fst fresh_service) (snd fresh_service)
                      (png_capture ''u1''))))
     = ''/data/screenshots/u1.png''"
proof -
  have ok: "fst (takeScreenshot (fst fresh_service) (snd fresh_service) (png_capture ''u1''))
     = Inr ''/data/screenshots/u1.png''"
    "view (fst fresh_service) = Queue"
    by code_simp+
  have "isl (fst (takeScreenshot (fst fresh_service) (snd fresh_service) failing_capture))
   \<and> primary (fst fresh_service,
               snd (takeScreenshot (fst fresh_service) (snd fresh_service) failing_capture))
     = primary fresh_service
   \<and> secondary (fst fresh_service,
               snd (takeScreenshot (fst fresh_service) (snd fresh_service) failing_capture))
     = secondary fresh_service"
    using takeScreenshot_atomic_on_failure[where h = "fst fresh_service"
      and w = "snd fresh_service" and env = failing_capture
      and r = "fst (takeScreenshot (fst fresh_service) (snd fresh_service) failing_capture)"
      and w' = "snd (takeScreenshot (fst fresh_service) (snd fresh_service) failing_capture)"]
      failing_capture_fails
    by (simp add: primary_def secondary_def)
  moreover have "last (primary (fst fresh_service,
               snd (takeScreenshot (fst fresh_service) (snd fresh_service)
                      (png_capture ''u1''))))
     = ''/data/screenshots/u1.png''"
  proof -
    let ?t = "takeScreenshot (fst fresh_service) (snd fresh_service) (png_capture ''u1'')"
    have t: "?t = (Inr ''/data/screenshots/u1.png'', snd ?t)"
      using ok(1) by (metis prod.collapse)
    have "last (arrays (snd ?t) (target_queue (fst fresh_service)))
        = ''/data/screenshots/u1.png''"
      using takeScreenshot_atomic_on_failure[OF t] by blast
    then show ?thesis using ok(2) by (simp add: target_queue_def)
  qed
  ultimately show ?thesis using ok by simp
qed

text \<open>
  C7. In every state reached from the constructor by any sequence of calls (changes
  of view, captures that succeed or fail, deletions, clearings), a successful capture
  taken while the view is \<^verbatim>\<open>queue\<close> puts its path, made in the primary directory, at
  the end of the primary queue (dropping the front entry when the queue was full)
  and leaves the secondary queue unchanged; taken while the view is \<^verbatim>\<open>solutions\<close> or
  \<^verbatim>\<open>debug\<close> it does the same to the secondary queue and leaves the primary unchanged.
\<close>

theorem mode_isolation:
  assumes "s = run cs (constructor userData temp v w0)"
    and "takeScreenshot (fst s) (snd s) env = (Inr p, w')"
  shows "(view (fst s) = Queue \<longrightarrow>
            p = path_join (screenshotDir (fst s)) (uuid env @ ''.png'')
          \<and> primary (fst s, w') =
              (if length (primary s) < MAX_SCREENSHOTS then primary s @ [p]
               else tl (primary s) @ [p])
          \<and> secondary (fst s, w') = secondary s)
       \<and> (view (fst s) = Solutions \<or> view (fst s) = Debug \<longrightarrow>
            p = path_join (extraScreenshotDir (fst s)) (uuid env @ ''.png'')
          \<and> secondary (fst s, w') =
              (if length (secondary s) < MAX_SCREENSHOTS then secondary s @ [p]
               else tl (secondary s) @ [p])
          \<and> primary (fst s, w') = primary s)"
proof -
  have sep: "screenshotQueue (fst s) \<noteq> extraScreenshotQueue (fst s)"
    using reachable_inv[OF assms(1)] by (simp add: separate_def)
  note t = takeScreenshot_heap[OF assms(2)]
  show ?thesis
  proof (cases "view (fst s) = Queue")
    case True
    then show ?thesis using t sep
      by (simp add: target_dir_def target_queue_def primary_def secondary_def)
  next
    case False
    then show ?thesis using t sep
      by (simp add: target_dir_def target_queue_def primary_def secondary_def)
  qed
qed

theorem mode_isolation_witness:
  "view (fst after_solutions_capture) = Queue
   \<and> primary (fst after_solutions_capture,
        snd (takeScreenshot (fst after_solutions_capture) (snd after_solutions_capture)
              (png_capture ''u2''))) = [''/data/screenshots/u2.png'']
   \<and> secondary (fst after_solutions_capture,
        snd (takeScreenshot (fst after_solutions_capture) (snd after_solutions_capture)
              (png_capture ''u2''))) = [''/data/extra_screenshots/u1.png'']
   \<and> view (fst in_debug_view) = Debug
   \<and> primary (fst in_debug_view,
        snd (takeScreenshot (fst in_debug_view) (snd in_debug_view)
              (png_capture ''u3''))) = []
   \<and> secondary (fst in_debug_view,
        snd (takeScreenshot (fst in_debug_view) (snd in_debug_view)
              (png_capture ''u3''))) = [''/data/extra_screenshots/u3.png'']"
proof -
  let ?t = "takeScreenshot (fst after_solutions_capture) (snd after_solutions_capture)
              (png_capture ''u2'')"
  let ?u = "takeScreenshot (fst in_debug_view) (snd in_debug_view) (png_capture ''u3'')"
  have t: "?t = (Inr ''/data/screenshots/u2.png'', snd ?t)"
    using after_solutions_capture_next by (metis prod.collapse)
  have u: "?u = (Inr ''/data/extra_screenshots/u3.png'', snd ?u)"
    using in_debug_view_facts(4) by (metis prod.collapse)
  have a: "primary (fst after_solutions_capture, snd ?t) = [''/data/screenshots/u2.png'']
      \<and> secondary (fst after_solutions_capture, snd ?t) = [''/data/extra_screenshots/u1.png'']"
    using mode_isolation[OF after_solutions_capture_def t] after_solutions_capture_queues
    by (simp add: MAX_SCREENSHOTS_def)
  have b: "primary (fst in_debug_view, snd ?u) = []
      \<and> secondary (fst in_debug_view, snd ?u) = [''/data/extra_screenshots/u3.png'']"
    using mode_isolation[OF in_debug_view_def u] in_debug_view_facts
    by (simp add: MAX_SCREENSHOTS_def)
  show ?thesis using a b after_solutions_capture_queues(3) in_debug_view_facts(3) by simp
qed

subsection \<open>Deleting\<close>

text \<open>
  C9. In every state reached from the constructor, if nothing exists at \<^verbatim>\<open>path\<close>, two
  calls of \<^verbatim>\<open>deleteScreenshot(path)\<close> in a row both return success and leave the files
  as they are; in both queues the entries other than \<^verbatim>\<open>path\<close> stay, in their order,
  the second call changes neither queue, and when \<^verbatim>\<open>path\<close> was in neither queue both
  queues are unchanged after each call.
\<close>

theorem deleteScreenshot_idempotent:
  assumes "s = run cs (constructor userData temp v w0)"
    and "\<not> existsSync (snd s) path"
    and "d1 = deleteScreenshot (fst s) (snd s) path"
    and "d2 = deleteScreenshot (fst (snd d1)) (snd (snd d1)) path"
  shows "success (fst d1) \<and> success (fst d2)
     \<and> files (snd (snd d1)) = files (snd s) \<and> files (snd (snd d2)) = files (snd s)
     \<and> filter (\<lambda>x. x \<noteq> path) (primary (snd d1)) = filter (\<lambda>x. x \<noteq> path) (primary s)
     \<and> filter (\<lambda>x. x \<noteq> path) (secondary (snd d1)) = filter (\<lambda>x. x \<noteq> path) (secondary s)
     \<and> primary (snd d2) = primary (snd d1) \<and> secondary (snd d2) = secondary (snd d1)
     \<and> (path \<notin> set (primary s) \<and> path \<notin> set (secondary s) \<longrightarrow>
           primary (snd d1) = primary s \<and> secondary (snd d1) = secondary s
         \<and> primary (snd d2) = primary s \<and> secondary (snd d2) = secondary s)"
proof -
  obtain h w where s: "s = (h, w)" by (cases s)
  obtain r1 h1 w1 where d1: "deleteScreenshot h w path = (r1, h1, w1)"
    by (cases "deleteScreenshot h w path") auto
  obtain r2 h2 w2 where d2: "deleteScreenshot h1 w1 path = (r2, h2, w2)"
    by (cases "deleteScreenshot h1 w1 path") auto
  have inv: "separate (h, w)" "bounded (h, w)"
    using reachable_inv[OF assms(1)] s by simp_all
  have ne: "\<not> existsSync w path" using assms(2) s by simp
  note a = deleteScreenshot_absent[OF inv ne d1]
  from a have inv1: "separate (h1, w1)" "bounded (h1, w1)" and ne1: "\<not> existsSync w1 path"
    by simp_all
  note b = deleteScreenshot_absent[OF inv1 ne1 d2]
  have e1: "d1 = (r1, h1, w1)" using assms(3) s d1 by simp
  then have e2: "d2 = (r2, h2, w2)" using assms(4) d2 by simp
  have id: "path \<notin> set xs \<Longrightarrow> filter (\<lambda>x. x \<noteq> path) xs = xs" for xs :: "string list"
    by (induction xs) auto
  show ?thesis
  proof (cases "view h = Queue")
    case True
    then show ?thesis using a b e1 e2 s id by simp
  next
    case False
    then show ?thesis using a b e1 e2 s id by simp
  qed
qed


theorem deleteScreenshot_idempotent_witness:
  "\<not> existsSync (snd after_solutions_capture) ''/data/screenshots/gone.png''
   \<and> success (fst (deleteScreenshot (fst after_solutions_capture)
                    (snd after_solutions_capture) ''/data/screenshots/gone.png''))
   \<and> secondary (snd (deleteScreenshot (fst after_solutions_capture)
                    (snd after_solutions_capture) ''/data/screenshots/gone.png''))
       = [''/data/extra_screenshots/u1.png'']
   \<and> primary (snd (deleteScreenshot (fst after_solutions_capture)
                    (snd after_solutions_capture) ''/data/screenshots/gone.png'')) = []"
proof -
  have ne: "\<not> existsSync (snd after_solutions_capture) ''/data/screenshots/gone.png''"
    by code_simp
  show ?thesis
    using deleteScreenshot_idempotent[OF after_solutions_capture_def ne refl refl]
      after_solutions_capture_queues ne
    by simp
qed

text \<open>
  C4, as amended. In every state reached from the constructor,
  \<^verbatim>\<open>deleteScreenshot(path)\<close> removes the entries equal to \<^verbatim>\<open>path\<close> from the queue selected
  by the current view (the primary queue in view \<^verbatim>\<open>queue\<close>, the secondary queue
  otherwise) and leaves the other queue unchanged, also when the other queue holds
  the path. It deletes the file if present and succeeds if nothing exists at the
  path; when something exists there and the unlink fails, it returns failure with the
  error message and changes nothing.
\<close>

theorem deleteScreenshot_current_view:
  assumes "s = run cs (constructor userData temp v w0)"
    and "deleteScreenshot (fst s) (snd s) path = (res, s')"
  shows "(existsSync (snd s) path \<and> (\<not> isFile (snd s) path \<or> unlink_denied (snd s) path)
            \<longrightarrow> \<not> success res \<and> error res \<noteq> None \<and> s' = s)
    \<and> (\<not> (existsSync (snd s) path \<and> (\<not> isFile (snd s) path \<or> unlink_denied (snd s) path))
            \<longrightarrow> success res \<and> error res = None \<and> \<not> isFile (snd s') path
              \<and> (view (fst s) = Queue \<longrightarrow>
                    primary s' = filter (\<lambda>filePath. filePath \<noteq> path) (primary s)
                  \<and> secondary s' = secondary s)
              \<and> (view (fst s) \<noteq> Queue \<longrightarrow>
                    secondary s' = filter (\<lambda>filePath. filePath \<noteq> path) (secondary s)
                  \<and> primary s' = primary s))"
proof -
  obtain h w where s: "s = (h, w)" by (cases s)
  obtain h' w' where s': "s' = (h', w')" by (cases s')
  have d: "deleteScreenshot h w path = (res, h', w')" using assms(2) s s' by simp
  have sep: "separate (h, w)" using reachable_inv[OF assms(1)] s by simp
  note c = deleteScreenshot_cases[OF d]
  show ?thesis
  proof (cases "success res")
    case False
    then show ?thesis using c s s' by auto
  next
    case True
    note q = deleteScreenshot_queues[OF sep d True]
    have nf: "\<not> isFile w' path" using c True by (auto simp: isFile_def)
    have g: "\<not> (existsSync w path \<and> (\<not> isFile w path \<or> unlink_denied w path))"
      using c True by auto
    have er: "error res = None" using c True by auto
    show ?thesis
    proof (cases "view h = Queue")
      case True
      then show ?thesis using q g nf er \<open>success res\<close> s s' by (simp add: target_queue_def)
    next
      case False
      then show ?thesis using q g nf er \<open>success res\<close> s s' by (simp add: target_queue_def)
    qed
  qed
qed

theorem deleteScreenshot_current_view_witness:
  "success (fst (deleteScreenshot (fst after_solutions_capture)
         (snd after_solutions_capture) ''/data/screenshots/u9.png''))
   \<and> primary (snd (deleteScreenshot (fst after_solutions_capture)
         (snd after_solutions_capture) ''/data/screenshots/u9.png'')) = []
   \<and> secondary (snd (deleteScreenshot (fst after_solutions_capture)
         (snd after_solutions_capture) ''/data/screenshots/u9.png''))
       = [''/data/extra_screenshots/u1.png'']
   \<and> \<not> success (fst (deleteScreenshot (fst after_solutions_capture)
         (snd after_solutions_capture) ''/data/extra_screenshots''))
   \<and> error (fst (deleteScreenshot (fst after_solutions_capture)
         (snd after_solutions_capture) ''/data/extra_screenshots'')) \<noteq> None
   \<and> snd (deleteScreenshot (fst after_solutions_capture)
         (snd after_solutions_capture) ''/data/extra_screenshots'') = after_solutions_capture
   \<and> success (fst (deleteScreenshot (fst in_solutions_view)
         (snd in_solutions_view) ''/data/extra_screenshots/u1.png''))
   \<and> \<not> isFile (snd (snd (deleteScreenshot (fst in_solutions_view)
         (snd in_solutions_view) ''/data/extra_screenshots/u1.png'')))
         ''/data/extra_screenshots/u1.png''
   \<and> secondary (snd (deleteScreenshot (fst in_solutions_view)
         (snd in_solutions_view) ''/data/extra_screenshots/u1.png'')) = []
   \<and> primary (snd (deleteScreenshot (fst in_solutions_view)
         (snd in_solutions_view) ''/data/extra_screenshots/u1.png'')) = []"
proof -
  let ?a = "deleteScreenshot (fst after_solutions_capture)
         (snd after_solutions_capture) ''/data/screenshots/u9.png''"
  let ?b = "deleteScreenshot (fst after_solutions_capture)
         (snd after_solutions_capture) ''/data/extra_screenshots''"
  let ?c = "deleteScreenshot (fst in_solutions_view)
         (snd in_solutions_view) ''/data/extra_screenshots/u1.png''"
  have ne: "\<not> existsSync (snd after_solutions_capture) ''/data/screenshots/u9.png''"
    by code_simp
  have a: "success (fst ?a) \<and> primary (snd ?a) = []
      \<and> secondary (snd ?a) = [''/data/extra_screenshots/u1.png'']"
    using deleteScreenshot_current_view[OF after_solutions_capture_def prod.collapse[symmetric],
        of "''/data/screenshots/u9.png''"]
      after_solutions_capture_queues ne
    by simp
  have b: "\<not> success (fst ?b) \<and> error (fst ?b) \<noteq> None \<and> snd ?b = after_solutions_capture"
    using deleteScreenshot_current_view[OF after_solutions_capture_def prod.collapse[symmetric],
        of "''/data/extra_screenshots''"]
      after_solutions_capture_files(3,4)
    by simp
  have c: "success (fst ?c) \<and> \<not> isFile (snd (snd ?c)) ''/data/extra_screenshots/u1.png''
      \<and> secondary (snd ?c) = [] \<and> primary (snd ?c) = []"
    using deleteScreenshot_current_view[OF in_solutions_view_def prod.collapse[symmetric],
        of "''/data/extra_screenshots/u1.png''"]
      in_solutions_view_facts
    by simp
  show ?thesis using a b c by simp
qed

text \<open>
  The claim as stated fails in view \<^verbatim>\<open>queue\<close> for a path held by the secondary queue:
  the call succeeds and deletes the file, and the secondary queue still holds the path.
\<close>

theorem deleteScreenshot_other_queue_counterexample:
  "view (fst after_solutions_capture) = Queue
   \<and> ''/data/extra_screenshots/u1.png'' \<in> set (secondary after_solutions_capture)
   \<and> isFile (snd after_solutions_capture) ''/data/extra_screenshots/u1.png''
   \<and> success (fst (deleteScreenshot (fst after_solutions_capture)
         (snd after_solutions_capture) ''/data/extra_screenshots/u1.png''))
   \<and> \<not> isFile (snd (snd (deleteScreenshot (fst after_solutions_capture)
         (snd after_solutions_capture) ''/data/extra_screenshots/u1.png'')))
         ''/data/extra_screenshots/u1.png''
   \<and> ''/data/extra_screenshots/u1.png'' \<in> set (secondary (snd (deleteScreenshot
         (fst after_solutions_capture) (snd after_solutions_capture)
         ''/data/extra_screenshots/u1.png'')))"
  by code_simp

subsection \<open>The getters\<close>

text \<open>
  C5, as amended. In every state reached from the constructor,
  \<^verbatim>\<open>getScreenshotQueue\<close> and \<^verbatim>\<open>getExtraScreenshotQueue\<close> change nothing and return the
  array the queue field refers to at that moment, not a copy. \<^verbatim>\<open>setView\<close> and
  \<^verbatim>\<open>takeScreenshot\<close> never replace that array, and while the field still refers to it,
  whatever the caller does to the returned array is done to the queue: the next query
  returns the caller's contents, and the next capture in that view appends its path to
  them, evicting by their length. A successful \<^verbatim>\<open>deleteScreenshot\<close> (for the queue of
  the current view), \<^verbatim>\<open>clearQueues\<close> and \<^verbatim>\<open>clearExtraScreenshotQueue\<close> (for the secondary
  queue) assign a new array to the field; from then on the array handed out earlier is
  detached, and what the caller does to it no longer changes the queue.
\<close>

theorem getters_alias_until_reassigned:
  assumes "s = run cs (constructor userData temp v w0)"
  shows "getScreenshotQueue (fst s) = screenshotQueue (fst s)
    \<and> getExtraScreenshotQueue (fst s) = extraScreenshotQueue (fst s)
    \<and> arrays (snd s) (getScreenshotQueue (fst s)) = primary s
    \<and> arrays (snd s) (getExtraScreenshotQueue (fst s)) = secondary s
    \<and> primary (fst s, push (getScreenshotQueue (fst s)) x (snd s)) = primary s @ [x]
    \<and> secondary (fst s, push (getExtraScreenshotQueue (fst s)) x (snd s)) = secondary s @ [x]
    \<and> primary (fst s, caller_sets (getScreenshotQueue (fst s)) xs (snd s)) = xs
    \<and> secondary (fst s, caller_sets (getScreenshotQueue (fst s)) xs (snd s)) = secondary s
    \<and> secondary (fst s, caller_sets (getExtraScreenshotQueue (fst s)) xs (snd s)) = xs
    \<and> primary (fst s, caller_sets (getExtraScreenshotQueue (fst s)) xs (snd s)) = primary s
    \<and> (\<forall>p w'. view (fst s) = Queue
           \<and> takeScreenshot (fst s) (caller_sets (getScreenshotQueue (fst s)) xs (snd s)) env
               = (Inr p, w')
           \<longrightarrow> primary (fst s, w') =
                 (if length xs < MAX_SCREENSHOTS then xs @ [p] else tl xs @ [p]))
    \<and> (\<forall>p w'. view (fst s) \<noteq> Queue
           \<and> takeScreenshot (fst s) (caller_sets (getExtraScreenshotQueue (fst s)) xs (snd s)) env
               = (Inr p, w')
           \<longrightarrow> secondary (fst s, w') =
                 (if length xs < MAX_SCREENSHOTS then xs @ [p] else tl xs @ [p]))
    \<and> getScreenshotQueue (fst (perform (SetView v') s)) = getScreenshotQueue (fst s)
    \<and> getExtraScreenshotQueue (fst (perform (SetView v') s)) = getExtraScreenshotQueue (fst s)
    \<and> getScreenshotQueue (fst (perform (TakeScreenshot env) s)) = getScreenshotQueue (fst s)
    \<and> getExtraScreenshotQueue (fst (perform (TakeScreenshot env) s))
        = getExtraScreenshotQueue (fst s)
    \<and> (\<forall>path res s'. deleteScreenshot (fst s) (snd s) path = (res, s') \<and> success res \<longrightarrow>
          (view (fst s) = Queue \<longrightarrow>
              getScreenshotQueue (fst s') \<noteq> getScreenshotQueue (fst s)
            \<and> primary (fst s', caller_sets (getScreenshotQueue (fst s)) xs (snd s')) = primary s'
            \<and> getExtraScreenshotQueue (fst s') = getExtraScreenshotQueue (fst s))
        \<and> (view (fst s) \<noteq> Queue \<longrightarrow>
              getExtraScreenshotQueue (fst s') \<noteq> getExtraScreenshotQueue (fst s)
            \<and> secondary (fst s', caller_sets (getExtraScreenshotQueue (fst s)) xs (snd s'))
                = secondary s'
            \<and> getScreenshotQueue (fst s') = getScreenshotQueue (fst s)))
    \<and> getScreenshotQueue (fst (clearQueues (fst s) (snd s))) \<noteq> getScreenshotQueue (fst s)
    \<and> getExtraScreenshotQueue (fst (clearQueues (fst s) (snd s)))
        \<noteq> getExtraScreenshotQueue (fst s)
    \<and> primary (fst (clearQueues (fst s) (snd s)),
          caller_sets (getScreenshotQueue (fst s)) xs (snd (clearQueues (fst s) (snd s)))) = []
    \<and> secondary (fst (clearQueues (fst s) (snd s)),
          caller_sets (getExtraScreenshotQueue (fst s)) xs (snd (clearQueues (fst s) (snd s))))
        = []
    \<and> getExtraScreenshotQueue (fst (clearExtraScreenshotQueue (fst s) (snd s)))
        \<noteq> getExtraScreenshotQueue (fst s)
    \<and> getScreenshotQueue (fst (clearExtraScreenshotQueue (fst s) (snd s)))
        = getScreenshotQueue (fst s)
    \<and> secondary (fst (clearExtraScreenshotQueue (fst s) (snd s)),
          caller_sets (getExtraScreenshotQueue (fst s)) xs
            (snd (clearExtraScreenshotQueue (fst s) (snd s)))) = []"
proof -
  obtain h w where s: "s = (h, w)" by (cases s)
  have sep: "separate (h, w)" using reachable_inv[OF assms] s by simp
  then have ne: "screenshotQueue h \<noteq> extraScreenshotQueue h"
    and al: "screenshotQueue h < fresh w" "extraScreenshotQueue h < fresh w"
    by (simp_all add: separate_def)
  have g: "getScreenshotQueue (fst s) = screenshotQueue h"
    "getExtraScreenshotQueue (fst s) = extraScreenshotQueue h"
    by (simp_all add: getScreenshotQueue_def getExtraScreenshotQueue_def s)
  have F1: "getScreenshotQueue (fst s) = screenshotQueue (fst s)
    \<and> getExtraScreenshotQueue (fst s) = extraScreenshotQueue (fst s)
    \<and> arrays (snd s) (getScreenshotQueue (fst s)) = primary s
    \<and> arrays (snd s) (getExtraScreenshotQueue (fst s)) = secondary s
    \<and> primary (fst s, push (getScreenshotQueue (fst s)) x (snd s)) = primary s @ [x]
    \<and> secondary (fst s, push (getExtraScreenshotQueue (fst s)) x (snd s)) = secondary s @ [x]"
    unfolding g by (simp add: s)
  have F2: "primary (fst s, caller_sets (getScreenshotQueue (fst s)) xs (snd s)) = xs
    \<and> secondary (fst s, caller_sets (getScreenshotQueue (fst s)) xs (snd s)) = secondary s
    \<and> secondary (fst s, caller_sets (getExtraScreenshotQueue (fst s)) xs (snd s)) = xs
    \<and> primary (fst s, caller_sets (getExtraScreenshotQueue (fst s)) xs (snd s)) = primary s"
    unfolding g using ne by (simp add: s)
  have F3: "\<forall>p w'. view (fst s) = Queue
           \<and> takeScreenshot (fst s) (caller_sets (getScreenshotQueue (fst s)) xs (snd s)) env
               = (Inr p, w')
           \<longrightarrow> primary (fst s, w') =
                 (if length xs < MAX_SCREENSHOTS then xs @ [p] else tl xs @ [p])"
  proof (intro allI impI)
    fix p w'
    assume a: "view (fst s) = Queue
           \<and> takeScreenshot (fst s) (caller_sets (getScreenshotQueue (fst s)) xs (snd s)) env
               = (Inr p, w')"
    then have "takeScreenshot h (caller_sets (target_queue h) xs w) env = (Inr p, w')"
      unfolding g by (simp add: s target_queue_def)
    from capture_after_mutation[OF this] a
    show "primary (fst s, w') = (if length xs < MAX_SCREENSHOTS then xs @ [p] else tl xs @ [p])"
      by (simp add: s target_queue_def)
  qed
  have F4: "\<forall>p w'. view (fst s) \<noteq> Queue
           \<and> takeScreenshot (fst s) (caller_sets (getExtraScreenshotQueue (fst s)) xs (snd s)) env
               = (Inr p, w')
           \<longrightarrow> secondary (fst s, w') =
                 (if length xs < MAX_SCREENSHOTS then xs @ [p] else tl xs @ [p])"
  proof (intro allI impI)
    fix p w'
    assume a: "view (fst s) \<noteq> Queue
           \<and> takeScreenshot (fst s) (caller_sets (getExtraScreenshotQueue (fst s)) xs (snd s)) env
               = (Inr p, w')"
    then have "takeScreenshot h (caller_sets (target_queue h) xs w) env = (Inr p, w')"
      unfolding g by (simp add: s target_queue_def)
    from capture_after_mutation[OF this] a
    show "secondary (fst s, w') = (if length xs < MAX_SCREENSHOTS then xs @ [p] else tl xs @ [p])"
      by (simp add: s target_queue_def)
  qed
  have F5: "getScreenshotQueue (fst (perform (SetView v') s)) = getScreenshotQueue (fst s)
    \<and> getExtraScreenshotQueue (fst (perform (SetView v') s)) = getExtraScreenshotQueue (fst s)
    \<and> getScreenshotQueue (fst (perform (TakeScreenshot env) s)) = getScreenshotQueue (fst s)
    \<and> getExtraScreenshotQueue (fst (perform (TakeScreenshot env) s))
        = getExtraScreenshotQueue (fst s)"
    by (simp add: s getScreenshotQueue_def getExtraScreenshotQueue_def setView_def)
  have F6: "\<forall>path res s'. deleteScreenshot (fst s) (snd s) path = (res, s') \<and> success res \<longrightarrow>
          (view (fst s) = Queue \<longrightarrow>
              getScreenshotQueue (fst s') \<noteq> getScreenshotQueue (fst s)
            \<and> primary (fst s', caller_sets (getScreenshotQueue (fst s)) xs (snd s')) = primary s'
            \<and> getExtraScreenshotQueue (fst s') = getExtraScreenshotQueue (fst s))
        \<and> (view (fst s) \<noteq> Queue \<longrightarrow>
              getExtraScreenshotQueue (fst s') \<noteq> getExtraScreenshotQueue (fst s)
            \<and> secondary (fst s', caller_sets (getExtraScreenshotQueue (fst s)) xs (snd s'))
                = secondary s'
            \<and> getScreenshotQueue (fst s') = getScreenshotQueue (fst s))"
  proof (intro allI impI)
    fix path res s'
    assume a: "deleteScreenshot (fst s) (snd s) path = (res, s') \<and> success res"
    obtain h' w' where s': "s' = (h', w')" by (cases s')
    have d: "deleteScreenshot h w path = (res, h', w')" and ok: "success res"
      using a s s' by simp_all
    note dd = delete_detaches[OF sep d ok, where xs = xs]
    show "(view (fst s) = Queue \<longrightarrow>
              getScreenshotQueue (fst s') \<noteq> getScreenshotQueue (fst s)
            \<and> primary (fst s', caller_sets (getScreenshotQueue (fst s)) xs (snd s')) = primary s'
            \<and> getExtraScreenshotQueue (fst s') = getExtraScreenshotQueue (fst s))
        \<and> (view (fst s) \<noteq> Queue \<longrightarrow>
              getExtraScreenshotQueue (fst s') \<noteq> getExtraScreenshotQueue (fst s)
            \<and> secondary (fst s', caller_sets (getExtraScreenshotQueue (fst s)) xs (snd s'))
                = secondary s'
            \<and> getScreenshotQueue (fst s') = getScreenshotQueue (fst s))"
      unfolding g using dd
      by (cases "view h = Queue")
         (simp_all add: s s' getScreenshotQueue_def getExtraScreenshotQueue_def)
  qed
  obtain hc wc where cq: "clearQueues h w = (hc, wc)" by (cases "clearQueues h w")
  have F7: "getScreenshotQueue (fst (clearQueues (fst s) (snd s))) \<noteq> getScreenshotQueue (fst s)
    \<and> getExtraScreenshotQueue (fst (clearQueues (fst s) (snd s)))
        \<noteq> getExtraScreenshotQueue (fst s)
    \<and> primary (fst (clearQueues (fst s) (snd s)),
          caller_sets (getScreenshotQueue (fst s)) xs (snd (clearQueues (fst s) (snd s)))) = []
    \<and> secondary (fst (clearQueues (fst s) (snd s)),
          caller_sets (getExtraScreenshotQueue (fst s)) xs (snd (clearQueues (fst s) (snd s))))
        = []"
    unfolding g using clearQueues_state[OF cq] al
    by (auto simp: s cq getScreenshotQueue_def getExtraScreenshotQueue_def)
  obtain he we where ce: "clearExtraScreenshotQueue h w = (he, we)"
    by (cases "clearExtraScreenshotQueue h w")
  have F8: "getExtraScreenshotQueue (fst (clearExtraScreenshotQueue (fst s) (snd s)))
        \<noteq> getExtraScreenshotQueue (fst s)
    \<and> getScreenshotQueue (fst (clearExtraScreenshotQueue (fst s) (snd s)))
        = getScreenshotQueue (fst s)
    \<and> secondary (fst (clearExtraScreenshotQueue (fst s) (snd s)),
          caller_sets (getExtraScreenshotQueue (fst s)) xs
            (snd (clearExtraScreenshotQueue (fst s) (snd s)))) = []"
    unfolding g using clearExtraScreenshotQueue_state[OF ce] al
    by (auto simp: s ce getScreenshotQueue_def getExtraScreenshotQueue_def)
  show ?thesis using F1 F2 F3 F4 F5 F6 F7 F8 by blast
qed

theorem getters_alias_until_reassigned_witness:
  "primary (fst fresh_service,
      caller_sets (getScreenshotQueue (fst fresh_service)) [''x''] (snd fresh_service)) = [''x'']
   \<and> primary (fst fresh_service,
       snd (takeScreenshot (fst fresh_service)
             (caller_sets (getScreenshotQueue (fst fresh_service)) [''x''] (snd fresh_service))
             (png_capture ''u1''))) = [''x'', ''/data/screenshots/u1.png'']
   \<and> primary (fst (snd (deleteScreenshot (fst fresh_service) (snd fresh_service)
                          ''/data/screenshots/u9.png'')),
       caller_sets (getScreenshotQueue (fst fresh_service)) [''x'']
         (snd (snd (deleteScreenshot (fst fresh_service) (snd fresh_service)
                      ''/data/screenshots/u9.png'')))) = []
   \<and> primary (fst (clearQueues (fst fresh_service) (snd fresh_service)),
       caller_sets (getScreenshotQueue (fst fresh_service)) [''x'']
         (snd (clearQueues (fst fresh_service) (snd fresh_service)))) = []"
proof -
  let ?m = "caller_sets (getScreenshotQueue (fst fresh_service)) [''x''] (snd fresh_service)"
  let ?t = "takeScreenshot (fst fresh_service) ?m (png_capture ''u1'')"
  let ?d = "deleteScreenshot (fst fresh_service) (snd fresh_service) ''/data/screenshots/u9.png''"
  note th = getters_alias_until_reassigned[OF fresh_service_reached,
      where xs = "[''x'']" and env = "png_capture ''u1''"]
  have t: "?t = (Inr ''/data/screenshots/u1.png'', snd ?t)"
    using fresh_service_facts(2) by (metis prod.collapse)
  have d: "?d = (fst ?d, snd ?d)" by simp
  have a: "primary (fst fresh_service, ?m) = [''x'']" using th by blast
  have b: "primary (fst fresh_service, snd ?t) = [''x'', ''/data/screenshots/u1.png'']"
  proof -
    have "primary (fst fresh_service, snd ?t) =
        (if length [''x''] < MAX_SCREENSHOTS then [''x''] @ [''/data/screenshots/u1.png'']
         else tl [''x''] @ [''/data/screenshots/u1.png''])"
      using th t fresh_service_facts(1) by blast
    then show ?thesis by (simp add: MAX_SCREENSHOTS_def)
  qed
  have c: "primary (fst (snd ?d),
       caller_sets (getScreenshotQueue (fst fresh_service)) [''x''] (snd (snd ?d))) = []"
  proof -
    have "primary (fst (snd ?d),
       caller_sets (getScreenshotQueue (fst fresh_service)) [''x''] (snd (snd ?d)))
       = primary (snd ?d)"
      using th d fresh_service_facts(1,3) by blast
    then show ?thesis using fresh_service_facts(4) by simp
  qed
  have e: "primary (fst (clearQueues (fst fresh_service) (snd fresh_service)),
       caller_sets (getScreenshotQueue (fst fresh_service)) [''x'']
         (snd (clearQueues (fst fresh_service) (snd fresh_service)))) = []"
    using th by blast
  show ?thesis using a b c e by blast
qed

text \<open>
  The claim as stated fails right after construction: pushing onto the array a getter
  returned changes the queue from empty to one entry, and a capture taken after the
  push leaves two entries where a capture on the untouched queue leaves one.
\<close>

theorem getters_snapshot_counterexample:
  "primary fresh_service = []
   \<and> primary (fst fresh_service,
        push (getScreenshotQueue (fst fresh_service)) ''x'' (snd fresh_service)) = [''x'']
   \<and> secondary fresh_service = []
   \<and> secondary (fst fresh_service,
        push (getExtraScreenshotQueue (fst fresh_service)) ''x'' (snd fresh_service)) = [''x'']
   \<and> primary (fst fresh_service,
        snd (takeScreenshot (fst fresh_service) (snd fresh_service) (png_capture ''u1'')))
       = [''/data/screenshots/u1.png'']
   \<and> primary (fst fresh_service,
        snd (takeScreenshot (fst fresh_service)
              (push (getScreenshotQueue (fst fresh_service)) ''x'' (snd fresh_service))
              (png_capture ''u1'')))
       = [''x'', ''/data/screenshots/u1.png'']"
  by code_simp

subsection \<open>Construction\<close>

text \<open>
  C8, as amended. After construction both queues are empty, whatever was on disk. The
  purge creates no file and deletes only files of the primary and secondary
  directories whose names end in \<^verbatim>\<open>.png\<close>: every other file, and every file whose
  unlink the system refuses, is still there afterwards. When both directories exist
  and can be listed, every file directly in one of them whose name ends in \<^verbatim>\<open>.png\<close> and
  whose unlink is not refused is gone after construction.
\<close>

theorem purge_on_start:
  assumes "constructor userData temp v w = (h, w')"
  shows "primary (h, w') = [] \<and> secondary (h, w') = []
    \<and> (\<forall>q. isFile w' q \<longrightarrow> isFile w q)
    \<and> (\<forall>q. unlink_denied w q
             \<or> (\<forall>n. q = path_join (path_join userData ''screenshots'') n
                    \<or> q = path_join (path_join userData ''extra_screenshots'') n
                    \<longrightarrow> \<not> endsWith n ''.png'')
           \<longrightarrow> isFile w' q = isFile w q)
    \<and> (path_join userData ''screenshots'' \<in> set (dirs w)
        \<and> path_join userData ''extra_screenshots'' \<in> set (dirs w)
        \<and> \<not> readdir_denied w (path_join userData ''screenshots'')
        \<and> \<not> readdir_denied w (path_join userData ''extra_screenshots'')
        \<longrightarrow> (\<forall>d n. (d = path_join userData ''screenshots''
                      \<or> d = path_join userData ''extra_screenshots'')
                   \<and> n \<noteq> [] \<and> CHR ''/'' \<notin> set n \<and> endsWith n ''.png''
                   \<and> \<not> unlink_denied w (path_join d n)
                 \<longrightarrow> \<not> isFile w' (path_join d n)))"
proof -
  let ?w2 = "w\<lparr>arrays := ((arrays w)(fresh w := []))(Suc (fresh w) := []),
               fresh := Suc (Suc (fresh w))\<rparr>"
  let ?w3 = "ensureDirectoriesExist h ?w2"
  have h: "screenshotDir h = path_join userData ''screenshots''"
    "extraScreenshotDir h = path_join userData ''extra_screenshots''"
    using constructor_state[OF assms] by simp_all
  have w': "w' = cleanScreenshotDirectories h ?w3"
    using assms by (auto simp: constructor_def new_array_def Let_def)
  have f3: "files ?w3 = files w" "unlink_denied ?w3 = unlink_denied w"
    "readdir_denied ?w3 = readdir_denied w"
    by (simp_all add: ensureDirectoriesExist_frame)
  have i3: "isFile ?w3 q = isFile w q" for q
    using f3(1) by (simp add: isFile_def)
  have d3: "d \<in> set (dirs w) \<Longrightarrow> d \<in> set (dirs ?w3)" for d
    using ensureDirectoriesExist_dirs[of d ?w2 h] by simp
  have q: "primary (h, w') = [] \<and> secondary (h, w') = []"
    using constructor_state[OF assms] by simp
  have a: "\<forall>q. isFile w' q \<longrightarrow> isFile w q"
    using cleanScreenshotDirectories_only_removes[of h ?w3] i3 w' by blast
  have b: "\<forall>q. unlink_denied w q
             \<or> (\<forall>n. q = path_join (path_join userData ''screenshots'') n
                    \<or> q = path_join (path_join userData ''extra_screenshots'') n
                    \<longrightarrow> \<not> endsWith n ''.png'')
           \<longrightarrow> isFile w' q = isFile w q"
    using cleanScreenshotDirectories_keeps[of ?w3 _ h] i3 w' f3(2) h by auto
  have c: "\<not> isFile w' (path_join d n)"
    if "path_join userData ''screenshots'' \<in> set (dirs w)"
      "path_join userData ''extra_screenshots'' \<in> set (dirs w)"
      "\<not> readdir_denied w (path_join userData ''screenshots'')"
      "\<not> readdir_denied w (path_join userData ''extra_screenshots'')"
      "d = path_join userData ''screenshots'' \<or> d = path_join userData ''extra_screenshots''"
      "n \<noteq> []" "CHR ''/'' \<notin> set n" "endsWith n ''.png''"
      "\<not> unlink_denied w (path_join d n)" for d n
    unfolding w'
    by (rule cleanScreenshotDirectories_removes)
       (use that h f3 d3 in simp_all)
  show ?thesis using q a b c by blast
qed

theorem purge_on_start_witness:
  "isFile leftover_world ''/data/screenshots/old.png''
   \<and> isFile leftover_world ''/data/extra_screenshots/old.png''
   \<and> \<not> isFile (snd (constructor ''/data'' ''/tmp'' Queue leftover_world))
        ''/data/screenshots/old.png''
   \<and> \<not> isFile (snd (constructor ''/data'' ''/tmp'' Queue leftover_world))
        ''/data/extra_screenshots/old.png''
   \<and> isFile (snd (constructor ''/data'' ''/tmp'' Queue leftover_world))
        ''/data/screenshots/locked.png''
   \<and> primary (constructor ''/data'' ''/tmp'' Queue leftover_world) = []
   \<and> secondary (constructor ''/data'' ''/tmp'' Queue leftover_world) = []"
proof -
  let ?c = "constructor ''/data'' ''/tmp'' Queue leftover_world"
  have c: "?c = (fst ?c, snd ?c)" by simp
  note p = purge_on_start[OF c]
  have pre: "path_join ''/data'' ''screenshots'' \<in> set (dirs leftover_world)"
    "path_join ''/data'' ''extra_screenshots'' \<in> set (dirs leftover_world)"
    "\<not> readdir_denied leftover_world (path_join ''/data'' ''screenshots'')"
    "\<not> readdir_denied leftover_world (path_join ''/data'' ''extra_screenshots'')"
    "isFile leftover_world ''/data/screenshots/old.png''"
    "isFile leftover_world ''/data/extra_screenshots/old.png''"
    "isFile leftover_world ''/data/screenshots/locked.png''"
    "unlink_denied leftover_world ''/data/screenshots/locked.png''"
    "\<not> unlink_denied leftover_world (path_join (path_join ''/data'' ''screenshots'') ''old.png'')"
    "\<not> unlink_denied leftover_world (path_join (path_join ''/data'' ''extra_screenshots'') ''old.png'')"
    "endsWith ''old.png'' ''.png''"
    "path_join (path_join ''/data'' ''screenshots'') ''old.png'' = ''/data/screenshots/old.png''"
    "path_join (path_join ''/data'' ''extra_screenshots'') ''old.png'' = ''/data/extra_screenshots/old.png''"
    by code_simp+
  have n: "''old.png'' \<noteq> []" "CHR ''/'' \<notin> set ''old.png''" by simp_all
  have g1: "\<not> isFile (snd ?c) ''/data/screenshots/old.png''"
    using p pre(1-4,9,11,12) n by metis
  have g2: "\<not> isFile (snd ?c) ''/data/extra_screenshots/old.png''"
    using p pre(1-4,10,11,13) n by metis
  have g3: "isFile (snd ?c) ''/data/screenshots/locked.png''"
    using p pre(7,8) by blast
  have g4: "primary ?c = [] \<and> secondary ?c = []"
    using p by (simp add: primary_def secondary_def)
  show ?thesis using g1 g2 g3 g4 pre(5,6) by simp
qed

text \<open>
  The claim as stated fails on a disk with leftovers: a file of the primary directory
  that is not named \<^verbatim>\<open>.png\<close> and a \<^verbatim>\<open>.png\<close> file whose unlink is refused are
  both still on disk after construction.
\<close>

theorem purge_on_start_counterexample:
  "isFile leftover_world ''/data/screenshots/locked.png''
   \<and> isFile (snd (constructor ''/data'' ''/tmp'' Queue leftover_world))
        ''/data/screenshots/locked.png''
   \<and> isFile leftover_world ''/data/screenshots/notes.txt''
   \<and> isFile (snd (constructor ''/data'' ''/tmp'' Queue leftover_world))
        ''/data/screenshots/notes.txt''"
  by code_simp

subsection \<open>Capacity\<close>

text \<open>
  C1, as amended. In every state reached from the constructor by any sequence of
  calls, after a successful capture neither queue is longer than
  \<^verbatim>\<open>MAX_SCREENSHOTS\<close> = 5. When the queue of the current view already held 5 entries,
  the capture removes exactly its front entry and appends the new path, leaving 5
  entries; the file of the removed entry is deleted unless the system refuses the
  unlink, which is only logged and leaves the file on disk; and, the uuids drawn being
  pairwise distinct, the removed path is no longer in the queue.
\<close>

theorem bounded_queues_and_eviction:
  assumes "s = run cs (constructor userData temp v w0)"
    and "takeScreenshot (fst s) (snd s) env = (Inr p, w')"
  shows "length (primary (fst s, w')) \<le> MAX_SCREENSHOTS
    \<and> length (secondary (fst s, w')) \<le> MAX_SCREENSHOTS
    \<and> (view (fst s) = Queue \<and> length (primary s) = MAX_SCREENSHOTS \<longrightarrow>
          primary (fst s, w') = tl (primary s) @ [p]
        \<and> length (primary (fst s, w')) = MAX_SCREENSHOTS
        \<and> (\<not> unlink_denied (snd s) (hd (primary s)) \<longrightarrow> \<not> isFile w' (hd (primary s)))
        \<and> (unlink_denied (snd s) (hd (primary s)) \<and> isFile (snd s) (hd (primary s))
              \<longrightarrow> isFile w' (hd (primary s)))
        \<and> (distinct (uuids_of cs @ [uuid env]) \<longrightarrow>
              hd (primary s) \<notin> set (primary (fst s, w'))))
    \<and> (view (fst s) \<noteq> Queue \<and> length (secondary s) = MAX_SCREENSHOTS \<longrightarrow>
          secondary (fst s, w') = tl (secondary s) @ [p]
        \<and> length (secondary (fst s, w')) = MAX_SCREENSHOTS
        \<and> (\<not> unlink_denied (snd s) (hd (secondary s)) \<longrightarrow> \<not> isFile w' (hd (secondary s)))
        \<and> (unlink_denied (snd s) (hd (secondary s)) \<and> isFile (snd s) (hd (secondary s))
              \<longrightarrow> isFile w' (hd (secondary s)))
        \<and> (distinct (uuids_of cs @ [uuid env]) \<longrightarrow>
              hd (secondary s) \<notin> set (secondary (fst s, w'))))"
proof -
  have inv: "separate (fst s, snd s)" "bounded (fst s, snd s)"
    using reachable_inv[OF assms(1)] by simp_all
  have b: "bounded (fst s, w')" using takeScreenshot_inv[OF assms(2) inv] by simp
  then have len: "length (primary (fst s, w')) \<le> MAX_SCREENSHOTS"
    "length (secondary (fst s, w')) \<le> MAX_SCREENSHOTS"
    by (simp_all add: bounded_def)
  have kr: "isFile w' a" if "unlink_denied (snd s) a" "isFile (snd s) a" for a
  proof -
    obtain buf where "saveToQueue (target_dir (fst s)) (target_queue (fst s)) p buf (snd s)
        = (None, w')"
      using takeScreenshot_Inr[OF assms(2)] by blast
    then show ?thesis using that by (rule saveToQueue_keeps_refused)
  qed
  have q: ?thesis if "view (fst s) = Queue"
  proof -
    have tq: "target_queue (fst s) = screenshotQueue (fst s)" using that
      by (simp add: target_queue_def)
    have old: "primary s = arrays (snd s) (target_queue (fst s))"
      by (simp add: primary_def tq)
    show ?thesis
      using eviction_at_capacity[OF assms old] len that kr[of "hd (primary s)"]
      by (simp add: tq primary_def)
  qed
  have e: ?thesis if "view (fst s) \<noteq> Queue"
  proof -
    have tq: "target_queue (fst s) = extraScreenshotQueue (fst s)" using that
      by (simp add: target_queue_def)
    have old: "secondary s = arrays (snd s) (target_queue (fst s))"
      by (simp add: secondary_def tq)
    show ?thesis
      using eviction_at_capacity[OF assms old] len that kr[of "hd (secondary s)"]
      by (simp add: tq secondary_def)
  qed
  show ?thesis using q e by blast
qed

theorem bounded_queues_and_eviction_witness:
  "primary (fst full_service,
        snd (takeScreenshot (fst full_service) (snd full_service) (png_capture ''u6''))) =
     [''/data/screenshots/u2.png'', ''/data/screenshots/u3.png'', ''/data/screenshots/u4.png'',
      ''/data/screenshots/u5.png'', ''/data/screenshots/u6.png'']
   \<and> \<not> isFile (snd (takeScreenshot (fst full_service) (snd full_service)
                    (png_capture ''u6''))) ''/data/screenshots/u1.png''
   \<and> ''/data/screenshots/u1.png'' \<notin> set (primary (fst full_service,
        snd (takeScreenshot (fst full_service) (snd full_service) (png_capture ''u6''))))
   \<and> length (secondary (fst full_service,
        snd (takeScreenshot (fst full_service) (snd full_service) (png_capture ''u6''))))
       \<le> MAX_SCREENSHOTS
   \<and> secondary (fst full_secondary_service,
        snd (takeScreenshot (fst full_secondary_service) (snd full_secondary_service)
              (png_capture ''u6''))) =
     [''/data/extra_screenshots/u2.png'', ''/data/extra_screenshots/u3.png'',
      ''/data/extra_screenshots/u4.png'', ''/data/extra_screenshots/u5.png'',
      ''/data/extra_screenshots/u6.png'']
   \<and> \<not> isFile (snd (takeScreenshot (fst full_secondary_service)
                    (snd full_secondary_service) (png_capture ''u6'')))
         ''/data/extra_screenshots/u1.png''
   \<and> isFile (snd (takeScreenshot (fst full_locked_service) (snd full_locked_service)
                 (png_capture ''u6''))) ''/data/screenshots/u1.png''"
proof -
  let ?l = "takeScreenshot (fst full_locked_service) (snd full_locked_service)
              (png_capture ''u6'')"
  have l: "?l = (Inr ''/data/screenshots/u6.png'', snd ?l)"
    using full_locked_service_facts(3) by (metis prod.collapse)
  have c: "isFile (snd ?l) ''/data/screenshots/u1.png''"
    using bounded_queues_and_eviction[OF full_locked_service_def l]
      full_locked_service_facts
    by (simp add: MAX_SCREENSHOTS_def)
  let ?t = "takeScreenshot (fst full_service) (snd full_service) (png_capture ''u6'')"
  let ?u = "takeScreenshot (fst full_secondary_service) (snd full_secondary_service)
              (png_capture ''u6'')"
  have t: "?t = (Inr ''/data/screenshots/u6.png'', snd ?t)"
    using full_service_facts(3) by (metis prod.collapse)
  have u: "?u = (Inr ''/data/extra_screenshots/u6.png'', snd ?u)"
    using full_secondary_service_facts(3) by (metis prod.collapse)
  have a: "primary (fst full_service, snd ?t) =
     [''/data/screenshots/u2.png'', ''/data/screenshots/u3.png'', ''/data/screenshots/u4.png'',
      ''/data/screenshots/u5.png'', ''/data/screenshots/u6.png'']
   \<and> \<not> isFile (snd ?t) ''/data/screenshots/u1.png''
   \<and> ''/data/screenshots/u1.png'' \<notin> set (primary (fst full_service, snd ?t))
   \<and> length (secondary (fst full_service, snd ?t)) \<le> MAX_SCREENSHOTS"
    using bounded_queues_and_eviction[OF full_service_def t] full_service_facts
    by (simp add: MAX_SCREENSHOTS_def)
  have b: "secondary (fst full_secondary_service, snd ?u) =
     [''/data/extra_screenshots/u2.png'', ''/data/extra_screenshots/u3.png'',
      ''/data/extra_screenshots/u4.png'', ''/data/extra_screenshots/u5.png'',
      ''/data/extra_screenshots/u6.png'']
   \<and> \<not> isFile (snd ?u) ''/data/extra_screenshots/u1.png''"
    using bounded_queues_and_eviction[OF full_secondary_service_def u]
      full_secondary_service_facts
    by (simp add: MAX_SCREENSHOTS_def)
  show ?thesis using a b c by simp
qed

text \<open>
  The claim as stated fails when the unlink of the evicted file is refused: the sixth
  capture succeeds, the first path leaves the queue, and its file is still on disk.
\<close>

theorem eviction_file_counterexample:
  "primary full_locked_service =
     [''/data/screenshots/u1.png'', ''/data/screenshots/u2.png'', ''/data/screenshots/u3.png'',
      ''/data/screenshots/u4.png'', ''/data/screenshots/u5.png'']
   \<and> fst (takeScreenshot (fst full_locked_service) (snd full_locked_service)
           (png_capture ''u6'')) = Inr ''/data/screenshots/u6.png''
   \<and> primary (fst full_locked_service,
        snd (takeScreenshot (fst full_locked_service) (snd full_locked_service)
              (png_capture ''u6''))) =
     [''/data/screenshots/u2.png'', ''/data/screenshots/u3.png'', ''/data/screenshots/u4.png'',
      ''/data/screenshots/u5.png'', ''/data/screenshots/u6.png'']
   \<and> isFile (snd (takeScreenshot (fst full_locked_service) (snd full_locked_service)
                 (png_capture ''u6''))) ''/data/screenshots/u1.png''"
  by code_simp

end
